theory Spec2Isabelle
  imports Complex_Main
begin

section \<open>The platform: JavaScript numbers\<close>

text \<open>
  The counter is a JavaScript number, that is an IEEE 754 binary64 value. Every finite
  binary64 value is a rational, so a number is modelled as \<open>Fin q\<close> with \<open>q\<close> the exact
  value, or as one of the two infinities (which \<open>JSON.parse\<close> produces for a literal such
  as \<open>1e999\<close>). NaN cannot arise in this program: no operation of it yields NaN from a
  parsed number. Negative zero is identified with zero: \<open>-0 + 1\<close> is \<open>1\<close>, \<open>typeof -0\<close> is
  \<open>'number'\<close> and \<open>JSON.stringify(-0)\<close> is \<open>"0"\<close>, so the program cannot tell them apart.
\<close>

datatype jsnum = Fin rat | PInf | NInf

function blen :: "int \<Rightarrow> int" where
  "blen n = (if n \<le> 0 then 0 else 1 + blen (n div 2))"
  by pat_completeness auto
termination
  by (relation "measure nat") auto

declare blen.simps [simp del]

function dlen :: "int \<Rightarrow> int" where
  "dlen n = (if n \<le> 0 then 0 else 1 + dlen (n div 10))"
  by pat_completeness auto
termination
  by (relation "measure nat") auto

declare dlen.simps [simp del]

definition pow2 :: "int \<Rightarrow> rat" where
  "pow2 e = (if 0 \<le> e then 2 ^ nat e else 1 / 2 ^ nat (- e))"

definition pow10 :: "int \<Rightarrow> rat" where
  "pow10 e = (if 0 \<le> e then 10 ^ nat e else 1 / 10 ^ nat (- e))"

text \<open>\<open>ilog2 q\<close> is the \<open>e\<close> with \<open>2 ^ e \<le> q < 2 ^ (e + 1)\<close>, for positive \<open>q\<close>;
  \<open>ilog10\<close> likewise for powers of ten.\<close>

definition ilog2 :: "rat \<Rightarrow> int" where
  "ilog2 q = (let (a, b) = quotient_of q; d = blen a - blen b
              in if pow2 d \<le> q then d else d - 1)"

definition ilog10 :: "rat \<Rightarrow> int" where
  "ilog10 q = (let (a, b) = quotient_of q; d = dlen a - dlen b
               in if pow10 d \<le> q then d else d - 1)"

definition round_half_even :: "rat \<Rightarrow> int" where
  "round_half_even x =
     (let f = \<lfloor>x\<rfloor>; d = x - of_int f
      in if d < 1 / 2 then f else if 1 / 2 < d then f + 1
         else if even f then f else f + 1)"

text \<open>\<open>fl q\<close> is the Number value for \<open>q\<close>: the binary64 value nearest to \<open>q\<close>, ties to
  the even significand, an infinity when the rounded magnitude reaches \<open>2 ^ 1024\<close>.\<close>

definition fl :: "rat \<Rightarrow> jsnum" where
  "fl q =
     (if q = 0 then Fin 0
      else let a = \<bar>q\<bar>;
               e = max (ilog2 a) (- 1022);
               u = pow2 (e - 52);
               r = of_int (round_half_even (a / u)) * u
           in if pow2 1024 \<le> r then (if 0 < q then PInf else NInf)
              else Fin (sgn q * r))"

text \<open>The expression \<open>x + 1\<close> on a number \<open>x\<close>.\<close>

definition plus_1 :: "jsnum \<Rightarrow> jsnum" where
  "plus_1 x = (case x of Fin q \<Rightarrow> fl (q + 1) | PInf \<Rightarrow> PInf | NInf \<Rightarrow> NInf)"

subsection \<open>Number to string\<close>

definition digit_char :: "int \<Rightarrow> char" where
  "digit_char d = ''0123456789'' ! nat d"

function digits_acc :: "int \<Rightarrow> string \<Rightarrow> string" where
  "digits_acc n acc =
     (if n < 10 then digit_char n # acc
      else digits_acc (n div 10) (digit_char (n mod 10) # acc))"
  by pat_completeness auto
termination
  by (relation "measure (\<lambda>(n, acc). nat n)") auto

declare digits_acc.simps [simp del]

text \<open>The decimal digits of a non-negative integer.\<close>

definition digits :: "int \<Rightarrow> string" where
  "digits n = digits_acc n []"

text \<open>
  \<open>Number::toString\<close> writes a positive \<open>q\<close> from integers \<open>n\<close>, \<open>k\<close>, \<open>s\<close> with
  \<open>k \<ge> 1\<close>, \<open>10 ^ (k - 1) \<le> s < 10 ^ k\<close>, the Number value for \<open>s * 10 ^ (n - k)\<close> being
  \<open>q\<close>, and \<open>k\<close> as small as possible; among several \<open>s\<close> the one nearest to \<open>q\<close>.
  For a given \<open>k\<close> only the two \<open>k\<close>-digit decimals around \<open>q\<close> can qualify.
\<close>

definition candidates :: "nat \<Rightarrow> rat \<Rightarrow> (int \<times> int) list" where
  "candidates k q =
     (let n = ilog10 q + 1; lo = \<lfloor>q / pow10 (n - int k)\<rfloor>
      in [(lo, n), if lo + 1 = 10 ^ k then (10 ^ (k - 1), n + 1) else (lo + 1, n)])"

definition cand_val :: "nat \<Rightarrow> int \<times> int \<Rightarrow> rat" where
  "cand_val k c = of_int (fst c) * pow10 (snd c - int k)"

definition closer :: "nat \<Rightarrow> rat \<Rightarrow> int \<times> int \<Rightarrow> int \<times> int \<Rightarrow> int \<times> int" where
  "closer k q c d =
     (let x = \<bar>cand_val k c - q\<bar>; y = \<bar>cand_val k d - q\<bar>
      in if x < y then c else if y < x then d else if even (fst c) then c else d)"

fun shortest :: "nat \<Rightarrow> nat \<Rightarrow> rat \<Rightarrow> int \<times> int \<times> nat" where
  "shortest 0 k q =
     (case candidates k q of
        [c, d] \<Rightarrow> (let (s, n) = closer k q c d in (s, n, k))
      | _ \<Rightarrow> (0, 0, k))"
| "shortest (Suc f) k q =
     (case filter (\<lambda>c. fl (cand_val k c) = Fin q) (candidates k q) of
        [] \<Rightarrow> shortest f (Suc k) q
      | [c] \<Rightarrow> (fst c, snd c, k)
      | c # d # _ \<Rightarrow> (let (s, n) = closer k q c d in (s, n, k)))"

text \<open>
  Seventeen significant digits identify every binary64 value, so the search runs over
  \<open>k = 1, \<dots>, 17\<close>: sixteen checked rounds, then at \<open>k = 17\<close> the nearer of the two
  candidates. The sign, the point and the exponent are placed as \<open>Number::toString\<close>
  prescribes.
\<close>

definition to_string_pos :: "rat \<Rightarrow> string" where
  "to_string_pos q =
     (let (s, n, k) = shortest 16 1 q; ds = digits s; k = int k
      in if k \<le> n \<and> n \<le> 21 then ds @ replicate (nat (n - k)) (CHR ''0'')
         else if 0 < n \<and> n \<le> 21 then take (nat n) ds @ ''.'' @ drop (nat n) ds
         else if - 6 < n \<and> n \<le> 0 then ''0.'' @ replicate (nat (- n)) (CHR ''0'') @ ds
         else let e = n - 1;
                  es = (if e < 0 then ''-'' else ''+'') @ digits \<bar>e\<bar>
              in if k = 1 then ds @ ''e'' @ es
                 else take 1 ds @ ''.'' @ drop 1 ds @ ''e'' @ es)"

definition Number_toString :: "jsnum \<Rightarrow> string" where
  "Number_toString x =
     (case x of
        Fin q \<Rightarrow> if q = 0 then ''0''
                 else if q < 0 then ''-'' @ to_string_pos (- q)
                 else to_string_pos q
      | PInf \<Rightarrow> ''Infinity''
      | NInf \<Rightarrow> ''-Infinity'')"


section \<open>The platform: JSON\<close>

text \<open>
  A parsed JSON value. A string is its list of UTF-16 code units; an object is the list
  of its members in source order, duplicates included (a later member wins on lookup).
\<close>

datatype json =
    JNull
  | JBool bool
  | JNum jsnum
  | JStr "nat list"
  | JArr "json list"
  | JObj "(nat list \<times> json) list"

datatype error = IOError | SyntaxError | TypeError | URIError

definition is_ws :: "char \<Rightarrow> bool" where
  "is_ws c = (c = CHR '' '' \<or> c = CHR 0x09 \<or> c = CHR 0x0A \<or> c = CHR 0x0D)"

definition skip_ws :: "string \<Rightarrow> string" where
  "skip_ws s = dropWhile is_ws s"

definition is_digit :: "char \<Rightarrow> bool" where
  "is_digit c = (48 \<le> (of_char c :: nat) \<and> (of_char c :: nat) \<le> 57)"

definition digit_val :: "char \<Rightarrow> int" where
  "digit_val c = int (of_char c) - 48"

definition digits_val :: "string \<Rightarrow> int" where
  "digits_val ds = foldl (\<lambda>a c. 10 * a + digit_val c) 0 ds"

definition hex_val :: "char \<Rightarrow> nat option" where
  "hex_val c =
     (let n = (of_char c :: nat)
      in if 48 \<le> n \<and> n \<le> 57 then Some (n - 48)
         else if 65 \<le> n \<and> n \<le> 70 then Some (n - 55)
         else if 97 \<le> n \<and> n \<le> 102 then Some (n - 87)
         else None)"

definition hex4 :: "char \<Rightarrow> char \<Rightarrow> char \<Rightarrow> char \<Rightarrow> nat option" where
  "hex4 a b c d =
     (case (hex_val a, hex_val b, hex_val c, hex_val d) of
        (Some w, Some x, Some y, Some z) \<Rightarrow> Some (((w * 16 + x) * 16 + y) * 16 + z)
      | _ \<Rightarrow> None)"

definition unescape :: "char \<Rightarrow> nat option" where
  "unescape e =
     (if e = CHR 0x22 then Some 0x22
      else if e = CHR 0x5C then Some 0x5C
      else if e = CHR ''/'' then Some 0x2F
      else if e = CHR ''b'' then Some 0x08
      else if e = CHR ''f'' then Some 0x0C
      else if e = CHR ''n'' then Some 0x0A
      else if e = CHR ''r'' then Some 0x0D
      else if e = CHR ''t'' then Some 0x09
      else None)"

text \<open>The characters of a string literal after its opening quote, up to the closing
  quote: the code units, and the rest of the input.\<close>

fun parse_string :: "string \<Rightarrow> (nat list \<times> string) option" where
  "parse_string [] = None"
| "parse_string (c # cs) =
     (if c = CHR 0x22 then Some ([], cs)
      else if c = CHR 0x5C then
        (case cs of
           [] \<Rightarrow> None
         | e # r \<Rightarrow>
             if e = CHR ''u'' then
               (case r of
                  a # b # c' # d # r' \<Rightarrow>
                    (case hex4 a b c' d of
                       None \<Rightarrow> None
                     | Some u \<Rightarrow> map_option (apfst ((#) u)) (parse_string r'))
                | _ \<Rightarrow> None)
             else
               (case unescape e of
                  None \<Rightarrow> None
                | Some u \<Rightarrow> map_option (apfst ((#) u)) (parse_string r)))
      else if (of_char c :: nat) < 0x20 then None
      else map_option (apfst ((#) (of_char c))) (parse_string cs))"

definition parse_frac :: "string \<Rightarrow> (string \<times> string) option" where
  "parse_frac s =
     (case s of
        [] \<Rightarrow> Some ([], [])
      | c # r \<Rightarrow>
          if c = CHR ''.'' then
            (if takeWhile is_digit r = [] then None
             else Some (takeWhile is_digit r, dropWhile is_digit r))
          else Some ([], s))"

definition parse_exp :: "string \<Rightarrow> (int \<times> string) option" where
  "parse_exp s =
     (case s of
        [] \<Rightarrow> Some (0, [])
      | c # r \<Rightarrow>
          if c = CHR ''e'' \<or> c = CHR ''E'' then
            (let (sg, r1) =
               (case r of
                  [] \<Rightarrow> (1, r)
                | x # t \<Rightarrow> if x = CHR ''+'' then (1, t)
                           else if x = CHR ''-'' then (- 1, t) else (1, r))
             in if takeWhile is_digit r1 = [] then None
                else Some (sg * digits_val (takeWhile is_digit r1), dropWhile is_digit r1))
          else Some (0, s))"

text \<open>A number literal: \<open>-? (0 | [1-9][0-9]*) (. [0-9]+)? ([eE] [+-]? [0-9]+)?\<close>,
  its exact value and the rest of the input.\<close>

definition parse_number :: "string \<Rightarrow> (rat \<times> string) option" where
  "parse_number s =
     (let (neg, s1) = (case s of [] \<Rightarrow> (False, s)
                       | c # r \<Rightarrow> if c = CHR ''-'' then (True, r) else (False, s));
          ip = takeWhile is_digit s1
      in if ip = [] \<or> (1 < length ip \<and> hd ip = CHR ''0'') then None
         else case parse_frac (dropWhile is_digit s1) of
                None \<Rightarrow> None
              | Some (fp, s3) \<Rightarrow>
                  (case parse_exp s3 of
                     None \<Rightarrow> None
                   | Some (ex, s4) \<Rightarrow>
                       Some ((if neg then - 1 else 1) * of_int (digits_val (ip @ fp))
                               * pow10 (ex - int (length fp)), s4)))"

definition strip_prefix :: "string \<Rightarrow> string \<Rightarrow> string option" where
  "strip_prefix p s = (if take (length p) s = p then Some (drop (length p) s) else None)"

text \<open>
  The recursive descent over values, array elements and object members. The first
  argument bounds the number of nested calls; \<open>JSON_parse\<close> starts it at
  \<open>2 * length s + 2\<close>, which the input cannot exhaust (lemmas \<open>parse_value_fuel\<close> and
  \<open>parse_value_fuel_indep\<close>).
\<close>

fun parse_value :: "nat \<Rightarrow> string \<Rightarrow> (json \<times> string) option"
  and parse_elements :: "nat \<Rightarrow> json list \<Rightarrow> string \<Rightarrow> (json \<times> string) option"
  and parse_members :: "nat \<Rightarrow> (nat list \<times> json) list \<Rightarrow> string \<Rightarrow> (json \<times> string) option"
where
  "parse_value 0 s = None"
| "parse_value (Suc f) s =
     (case skip_ws s of
        [] \<Rightarrow> None
      | c # r \<Rightarrow>
          if c = CHR ''{'' then
            (case skip_ws r of
               [] \<Rightarrow> None
             | x # r' \<Rightarrow> if x = CHR ''}'' then Some (JObj [], r') else parse_members f [] r)
          else if c = CHR ''['' then
            (case skip_ws r of
               [] \<Rightarrow> None
             | x # r' \<Rightarrow> if x = CHR '']'' then Some (JArr [], r') else parse_elements f [] r)
          else if c = CHR 0x22 then map_option (apfst JStr) (parse_string r)
          else if c = CHR ''t'' then map_option (Pair (JBool True)) (strip_prefix ''rue'' r)
          else if c = CHR ''f'' then map_option (Pair (JBool False)) (strip_prefix ''alse'' r)
          else if c = CHR ''n'' then map_option (Pair JNull) (strip_prefix ''ull'' r)
          else map_option (apfst (\<lambda>q. JNum (fl q))) (parse_number (c # r)))"
| "parse_elements 0 acc s = None"
| "parse_elements (Suc f) acc s =
     (case parse_value f s of
        None \<Rightarrow> None
      | Some (v, r) \<Rightarrow>
          (case skip_ws r of
             [] \<Rightarrow> None
           | x # r' \<Rightarrow>
               if x = CHR '','' then parse_elements f (acc @ [v]) r'
               else if x = CHR '']'' then Some (JArr (acc @ [v]), r')
               else None))"
| "parse_members 0 acc s = None"
| "parse_members (Suc f) acc s =
     (case skip_ws s of
        [] \<Rightarrow> None
      | q # r \<Rightarrow>
          if q = CHR 0x22 then
            (case parse_string r of
               None \<Rightarrow> None
             | Some (k, r1) \<Rightarrow>
                 (case skip_ws r1 of
                    [] \<Rightarrow> None
                  | y # r2 \<Rightarrow>
                      if y = CHR '':'' then
                        (case parse_value f r2 of
                           None \<Rightarrow> None
                         | Some (v, r3) \<Rightarrow>
                             (case skip_ws r3 of
                                [] \<Rightarrow> None
                              | x # r4 \<Rightarrow>
                                  if x = CHR '','' then parse_members f (acc @ [(k, v)]) r4
                                  else if x = CHR ''}'' then Some (JObj (acc @ [(k, v)]), r4)
                                  else None))
                      else None))
          else None)"

text \<open>\<open>JSON.parse\<close>: one value, surrounded by white space only; otherwise a \<open>SyntaxError\<close>.\<close>

definition JSON_parse :: "string \<Rightarrow> error + json" where
  "JSON_parse s =
     (case parse_value (2 * length s + 2) s of
        None \<Rightarrow> Inl SyntaxError
      | Some (v, r) \<Rightarrow> if skip_ws r = [] then Inr v else Inl SyntaxError)"


text \<open>
  Serialisation of a number inside \<open>JSON.stringify\<close>: a finite number by
  \<open>Number::toString\<close>, anything else as \<open>null\<close>.
\<close>

definition JSON_number :: "jsnum \<Rightarrow> string" where
  "JSON_number x = (case x of Fin q \<Rightarrow> Number_toString x | _ \<Rightarrow> ''null'')"

text \<open>\<open>JSON.stringify({ count: n })\<close>, \<open>JSON.stringify({ count: n }, null, 2)\<close> and
  \<open>JSON.stringify({ error: msg })\<close> for a message that needs no escaping.\<close>

definition stringify_count :: "jsnum \<Rightarrow> string" where
  \<open>stringify_count n = ''{"count":'' @ JSON_number n @ ''}''\<close>

definition stringify_count_2 :: "jsnum \<Rightarrow> string" where
  \<open>stringify_count_2 n =
     ''{'' @ [CHR 0x0A] @ ''  "count": '' @ JSON_number n @ [CHR 0x0A] @ ''}''\<close>

definition stringify_error :: "string \<Rightarrow> string" where
  \<open>stringify_error msg = ''{"error":"'' @ msg @ ''"}''\<close>

text \<open>
  The property access \<open>obj.count\<close> on a parsed value: a \<open>TypeError\<close> on \<open>null\<close>, the
  last member named \<open>count\<close> of an object, \<open>undefined\<close> (here \<open>None\<close>) on everything else
  (no prototype of a parsed value has a property of that name).
\<close>

definition count_key :: "nat list" where
  "count_key = map of_char ''count''"

definition get_count :: "json \<Rightarrow> error + json option" where
  "get_count v =
     (case v of
        JNull \<Rightarrow> Inl TypeError
      | JObj ms \<Rightarrow> Inr (map_of (rev ms) count_key)
      | _ \<Rightarrow> Inr None)"

section \<open>The file system\<close>

text \<open>
  The state is the content of the one file at \<open>DATA_PATH\<close>, \<open>None\<close> when there is no
  such file. The file is read as UTF-8 text; the model keeps its bytes, which agrees
  with the decoded text on ASCII, and elsewhere \<open>JSON.parse\<close> treats every non-ASCII
  code unit alike (legal inside a string literal, a syntax error outside).

  What the operating system does to a call is an input of the model: \<open>io\<close> says whether
  an access or a read fails for a reason other than a missing file, and whether a write
  succeeds, fails before the file is opened (the file is unchanged) or fails after the
  file was truncated and its first \<open>k\<close> bytes were written.
\<close>

type_synonym fs = "string option"

datatype wfault = WriteOk | FailBefore | FailAfter nat

record io =
  access_fails :: bool
  read_fails :: bool
  write_fault :: wfault

definition fsp_access :: "io \<Rightarrow> fs \<Rightarrow> error + unit" where
  "fsp_access io fs = (if fs = None \<or> access_fails io then Inl IOError else Inr ())"

definition fsp_readFile :: "io \<Rightarrow> fs \<Rightarrow> error + string" where
  "fsp_readFile io fs =
     (case fs of
        None \<Rightarrow> Inl IOError
      | Some raw \<Rightarrow> if read_fails io then Inl IOError else Inr raw)"

definition fsp_writeFile :: "io \<Rightarrow> string \<Rightarrow> fs \<Rightarrow> (error + unit) \<times> fs" where
  "fsp_writeFile io data fs =
     (case write_fault io of
        WriteOk \<Rightarrow> (Inr (), Some data)
      | FailBefore \<Rightarrow> (Inl IOError, fs)
      | FailAfter k \<Rightarrow> (Inl IOError, Some (take k data)))"

section \<open>The counter store of \<open>server.js\<close>\<close>

text \<open>
  \<^verbatim>\<open>
  async function ensureDataFile() {
    try { await fsp.access(DATA_PATH); }
    catch { await fsp.writeFile(DATA_PATH, JSON.stringify({ count: 0 }, null, 2), 'utf8'); }
  }
  async function readCount() {
    try {
      const raw = await fsp.readFile(DATA_PATH, 'utf8');
      const obj = JSON.parse(raw || '{}');
      return typeof obj.count === 'number' ? obj.count : 0;
    } catch { return 0; }
  }
  async function writeCount(n) {
    await fsp.writeFile(DATA_PATH, JSON.stringify({ count: n }, null, 2), 'utf8');
  }
  \<close>
\<close>

definition ensureDataFile :: "io \<Rightarrow> fs \<Rightarrow> (error + unit) \<times> fs" where
  "ensureDataFile io fs =
     (case fsp_access io fs of
        Inr u \<Rightarrow> (Inr (), fs)
      | Inl e \<Rightarrow> fsp_writeFile io (stringify_count_2 (Fin 0)) fs)"

definition readCount :: "io \<Rightarrow> fs \<Rightarrow> jsnum" where
  "readCount io fs =
     (case fsp_readFile io fs of
        Inl e \<Rightarrow> Fin 0
      | Inr raw \<Rightarrow>
          (case JSON_parse (if raw = [] then ''{}'' else raw) of
             Inl e \<Rightarrow> Fin 0
           | Inr obj \<Rightarrow>
               (case get_count obj of
                  Inl e \<Rightarrow> Fin 0
                | Inr c \<Rightarrow> (case c of Some (JNum n) \<Rightarrow> n | _ \<Rightarrow> Fin 0))))"

definition writeCount :: "io \<Rightarrow> jsnum \<Rightarrow> fs \<Rightarrow> (error + unit) \<times> fs" where
  "writeCount io n fs = fsp_writeFile io (stringify_count_2 n) fs"

section \<open>The request handler of \<open>server.js\<close>\<close>

text \<open>
  A request is its method (\<open>req.method\<close>) and the outcome of \<open>url.parse(req.url, true)\<close>: an exception,
  or the \<open>pathname\<close> of the parsed URL (\<open>None\<close> for \<open>null\<close>). \<open>url.parse\<close> throws a
  \<open>TypeError\<close> (\<open>ERR_INVALID_URL\<close>) on a request target in absolute form whose host it
  rejects, and a \<open>URIError\<close> on one whose credentials do not decode. The response
  object starts with status 200, no header and an empty body.
\<close>

record request =
  req_method :: string
  pathname :: "error + string option"

record response =
  statusCode :: nat
  headers :: "(string \<times> string) list"
  body :: string

definition new_response :: response where
  "new_response = \<lparr>statusCode = 200, headers = [], body = []\<rparr>"

definition setHeader :: "string \<Rightarrow> string \<Rightarrow> response \<Rightarrow> response" where
  "setHeader k v res = res\<lparr>headers := filter (\<lambda>h. fst h \<noteq> k) (headers res) @ [(k, v)]\<rparr>"

definition writeHead :: "nat \<Rightarrow> (string \<times> string) list \<Rightarrow> response \<Rightarrow> response" where
  "writeHead st hs res = fold (\<lambda>h. setHeader (fst h) (snd h)) hs (res\<lparr>statusCode := st\<rparr>)"

text \<open>
  \<open>res.end(data)\<close> sends \<open>data\<close> only when the response has a body: Node sends none in
  answer to a \<open>HEAD\<close> request, nor with the status codes 204, 304 and 100 to 199.
\<close>

definition has_body :: "request \<Rightarrow> response \<Rightarrow> bool" where
  "has_body req res \<longleftrightarrow>
     req_method req \<noteq> ''HEAD'' \<and> statusCode res \<noteq> 204 \<and> statusCode res \<noteq> 304 \<and>
     (statusCode res < 100 \<or> 199 < statusCode res)"

definition res_end :: "request \<Rightarrow> string \<Rightarrow> response \<Rightarrow> response" where
  "res_end req data res = (if has_body req res then res\<lparr>body := body res @ data\<rparr> else res)"

definition cors_headers :: "(string \<times> string) list" where
  "cors_headers =
     [(''Access-Control-Allow-Origin'', ''*''),
      (''Access-Control-Allow-Methods'', ''GET,POST,OPTIONS''),
      (''Access-Control-Allow-Headers'', ''Content-Type'')]"

definition json_type :: "(string \<times> string) list" where
  "json_type = [(''Content-Type'', ''application/json'')]"

definition html_type :: "(string \<times> string) list" where
  "html_type = [(''Content-Type'', ''text/html; charset=utf-8'')]"

text \<open>
  \<^verbatim>\<open>
  const server = http.createServer(async (req, res) => {
    const { pathname } = url.parse(req.url, true);
    res.setHeader('Access-Control-Allow-Origin', '*');
    res.setHeader('Access-Control-Allow-Methods', 'GET,POST,OPTIONS');
    res.setHeader('Access-Control-Allow-Headers', 'Content-Type');
    if (req.method === 'OPTIONS') { res.statusCode = 204; return res.end(); }
    try {
      if (pathname === '/' && req.method === 'GET') {
        res.writeHead(200, { 'Content-Type': 'text/html; charset=utf-8' });
        return res.end(HTML);
      }
      if (pathname === '/api/count' && req.method === 'GET') {
        const n = await readCount();
        res.writeHead(200, { 'Content-Type': 'application/json' });
        return res.end(JSON.stringify({ count: n }));
      }
      if (pathname === '/api/increment' && req.method === 'POST') {
        const n = (await readCount()) + 1;
        await writeCount(n);
        res.writeHead(200, { 'Content-Type': 'application/json' });
        return res.end(JSON.stringify({ count: n }));
      }
      res.writeHead(404, { 'Content-Type': 'application/json' });
      res.end(JSON.stringify({ error: 'Not found' }));
    } catch (err) {
      console.error(err);
      res.writeHead(500, { 'Content-Type': 'application/json' });
      res.end(JSON.stringify({ error: 'Server error' }));
    }
  });
  \<close>
\<close>

text \<open>
  The body of the \<open>try\<close> block (lines 149 to 169). \<open>HTML\<close> is the page text, a constant
  of a hundred lines that no claim depends on, taken as a parameter. The result is the
  finished response or the exception thrown, with the file system after it.
\<close>

definition try_block ::
  "string \<Rightarrow> io \<Rightarrow> request \<Rightarrow> string option \<Rightarrow> response \<Rightarrow> fs \<Rightarrow> (error + response) \<times> fs"
where
  "try_block HTML io req path res fs =
     (if path = Some ''/'' \<and> req_method req = ''GET'' then
        (Inr (res_end req HTML (writeHead 200 html_type res)), fs)
      else if path = Some ''/api/count'' \<and> req_method req = ''GET'' then
        (let n = readCount io fs
         in (Inr (res_end req (stringify_count n) (writeHead 200 json_type res)), fs))
      else if path = Some ''/api/increment'' \<and> req_method req = ''POST'' then
        (let n = plus_1 (readCount io fs)
         in case writeCount io n fs of
              (Inl e, fs') \<Rightarrow> (Inl e, fs')
            | (Inr u, fs') \<Rightarrow>
                (Inr (res_end req (stringify_count n) (writeHead 200 json_type res)), fs'))
      else (Inr (res_end req (stringify_error ''Not found'') (writeHead 404 json_type res)), fs))"

text \<open>
  The handler (lines 139 to 175). When \<open>url.parse\<close> throws, the handler's promise is
  rejected before anything is written: there is no response (\<open>None\<close>).
\<close>

definition server :: "string \<Rightarrow> io \<Rightarrow> request \<Rightarrow> fs \<Rightarrow> response option \<times> fs" where
  "server HTML io req fs =
     (case pathname req of
        Inl e \<Rightarrow> (None, fs)
      | Inr path \<Rightarrow>
          (let res = fold (\<lambda>h. setHeader (fst h) (snd h)) cors_headers new_response
           in if req_method req = ''OPTIONS'' then
                (Some (res_end req [] (res\<lparr>statusCode := 204\<rparr>)), fs)
              else case try_block HTML io req path res fs of
                     (Inr r, fs') \<Rightarrow> (Some r, fs')
                   | (Inl err, fs') \<Rightarrow>
                       (Some (res_end req (stringify_error ''Server error'')
                                (writeHead 500 json_type res)), fs')))"

text \<open>Requests handled one after the other, each with its own I/O outcomes.\<close>

fun serve_all :: "string \<Rightarrow> (io \<times> request) list \<Rightarrow> fs \<Rightarrow> fs" where
  "serve_all HTML [] fs = fs"
| "serve_all HTML (x # xs) fs = serve_all HTML xs (snd (server HTML (fst x) (snd x) fs))"





definition no_fault :: "io \<Rightarrow> bool" where
  "no_fault io \<longleftrightarrow> \<not> read_fails io \<and> write_fault io = WriteOk"



text \<open>The test \<open>typeof obj.count === 'number'\<close> of \<open>readCount\<close>, as a predicate on the
  parsed value.\<close>

definition numeric_count :: "json \<Rightarrow> bool" where
  "numeric_count v = (case get_count v of Inr (Some (JNum n)) \<Rightarrow> True | _ \<Rightarrow> False)"

text \<open>I/O without faults, and the two API requests.\<close>

definition io_ok :: io where
  "io_ok = \<lparr>access_fails = False, read_fails = False, write_fault = WriteOk\<rparr>"

definition GET_count :: request where
  "GET_count = \<lparr>req_method = ''GET'', pathname = Inr (Some ''/api/count'')\<rparr>"

definition POST_increment :: request where
  "POST_increment = \<lparr>req_method = ''POST'', pathname = Inr (Some ''/api/increment'')\<rparr>"

text \<open>The decimal numeral of an integer, as the specification of what
  \<open>Number::toString\<close> prints and \<open>JSON.parse\<close> reads back on integers.\<close>

definition show_int :: "int \<Rightarrow> string" where
  "show_int n = (if n < 0 then ''-'' @ digits (- n) else digits n)"

text \<open>What may follow a number literal for \<open>parse_number\<close> to stop there.\<close>

definition number_end :: "string \<Rightarrow> bool" where
  "number_end rest \<longleftrightarrow>
     rest = [] \<or> (\<not> is_digit (hd rest) \<and> hd rest \<noteq> CHR ''.'' \<and> hd rest \<noteq> CHR ''e'' \<and>
       hd rest \<noteq> CHR ''E'')"

section \<open>Properties of the number model\<close>

subsection \<open>Integer logarithms\<close>

lemma pow2_powi: "pow2 e = 2 powi e"
  by (simp add: pow2_def power_int_def power_one_over inverse_eq_divide)

lemma pow10_powi: "pow10 e = 10 powi e"
  by (simp add: pow10_def power_int_def power_one_over inverse_eq_divide)

lemma blen_nonneg: "0 \<le> blen n"
proof (induction n rule: blen.induct)
  case (1 n)
  then show ?case
    by (cases "n \<le> 0") (simp_all add: blen.simps [of n])
qed

lemma blen_pos: "0 < n \<Longrightarrow> 0 < blen n"
  using blen_nonneg [of "n div 2"] by (simp add: blen.simps [of n])

lemma blen_bounds: "0 < n \<Longrightarrow> 2 ^ nat (blen n - 1) \<le> n \<and> n < 2 ^ nat (blen n)"
proof (induction n rule: blen.induct)
  case (1 n)
  show ?case
  proof (cases "0 < n div 2")
    case False
    with 1(2) have "n = 1" by linarith
    then show ?thesis by (simp add: blen.simps [of 1] blen.simps [of 0])
  next
    case True
    with 1 have ih: "2 ^ nat (blen (n div 2) - 1) \<le> n div 2" "n div 2 < 2 ^ nat (blen (n div 2))"
      by simp_all
    from True have p: "0 < blen (n div 2)" by (rule blen_pos)
    have b: "blen n = 1 + blen (n div 2)" using 1(2) by (simp add: blen.simps [of n])
    from p have e1: "nat (blen n - 1) = Suc (nat (blen (n div 2) - 1))"
      unfolding b by simp
    from p have e2: "nat (blen n) = Suc (nat (blen (n div 2)))"
      unfolding b by simp
    from ih show ?thesis unfolding e1 e2 by simp linarith
  qed
qed


lemma dlen_nonneg: "0 \<le> dlen n"
proof (induction n rule: dlen.induct)
  case (1 n)
  then show ?case
    by (cases "n \<le> 0") (simp_all add: dlen.simps [of n])
qed

lemma dlen_pos: "0 < n \<Longrightarrow> 0 < dlen n"
  using dlen_nonneg [of "n div 10"] by (simp add: dlen.simps [of n])

lemma dlen_bounds: "0 < n \<Longrightarrow> 10 ^ nat (dlen n - 1) \<le> n \<and> n < 10 ^ nat (dlen n)"
proof (induction n rule: dlen.induct)
  case (1 n)
  show ?case
  proof (cases "0 < n div 10")
    case False
    with 1(2) have "n < 10" by linarith
    with 1(2) show ?thesis by (simp add: dlen.simps [of n] dlen.simps [of 0])
  next
    case True
    with 1 have ih: "10 ^ nat (dlen (n div 10) - 1) \<le> n div 10"
      "n div 10 < 10 ^ nat (dlen (n div 10))"
      by simp_all
    from True have p: "0 < dlen (n div 10)" by (rule dlen_pos)
    have b: "dlen n = 1 + dlen (n div 10)" using 1(2) by (simp add: dlen.simps [of n])
    from p have e1: "nat (dlen n - 1) = Suc (nat (dlen (n div 10) - 1))"
      unfolding b by simp
    from p have e2: "nat (dlen n) = Suc (nat (dlen (n div 10)))"
      unfolding b by simp
    from ih show ?thesis unfolding e1 e2 by simp linarith
  qed
qed

lemma ilog_window:
  fixes c q :: rat
  assumes c: "1 < c" and q: "0 < q" and ab: "quotient_of q = (a, b)"
    and a: "c powi (la - 1) \<le> of_int a" "of_int a < c powi la"
    and b: "c powi (lb - 1) \<le> of_int b" "of_int b < c powi lb"
  shows "c powi (la - lb - 1) < q \<and> q < c powi (la - lb + 1)"
proof -
  from ab have bpos: "0 < b" by (rule quotient_of_denom_pos)
  from ab have qdiv: "q = of_int a / of_int b" by (rule quotient_of_div)
  have c0: "c \<noteq> 0" "0 < c" using c by simp_all
  have B: "(0::rat) < of_int b" using bpos by simp
  have "c powi (la - lb - 1) * of_int b < c powi (la - lb - 1) * c powi lb"
    using b(2) c0 by (simp add: mult_strict_left_mono)
  also have "\<dots> = c powi (la - 1)"
    using c0 by (simp add: power_int_add [symmetric])
  also have "\<dots> \<le> of_int a" by (rule a(1))
  finally have lo: "c powi (la - lb - 1) < q"
    using B by (simp add: qdiv pos_less_divide_eq)
  have "of_int a < c powi la" by (rule a(2))
  also have "\<dots> = c powi (la - lb + 1) * c powi (lb - 1)"
    using c0 by (simp add: power_int_add [symmetric])
  also have "\<dots> \<le> c powi (la - lb + 1) * of_int b"
    using b(1) c0 by (simp add: mult_left_mono)
  finally have hi: "q < c powi (la - lb + 1)"
    using B by (simp add: qdiv pos_divide_less_eq)
  from lo hi show ?thesis ..
qed

lemma quotient_of_pos:
  assumes "0 < q" and "quotient_of q = (a, b)"
  shows "0 < a" and "0 < b"
proof -
  show b: "0 < b" using assms(2) by (rule quotient_of_denom_pos)
  from assms(2) have "q = of_int a / of_int b" by (rule quotient_of_div)
  with assms(1) b show "0 < a" by (simp add: zero_less_divide_iff)
qed

lemma of_int_pow_bounds:
  fixes c :: int
  assumes "0 < l" and "c ^ nat (l - 1) \<le> n" and "n < c ^ nat l"
  shows "(of_int c :: rat) powi (l - 1) \<le> of_int n" and "(of_int n :: rat) < of_int c powi l"
proof -
  have "(of_int c :: rat) powi (l - 1) = of_int (c ^ nat (l - 1))"
    using assms(1) by (simp add: power_int_def)
  also have "\<dots> \<le> of_int n" using assms(2) by (simp only: of_int_le_iff)
  finally show "(of_int c :: rat) powi (l - 1) \<le> of_int n" .
  have "(of_int n :: rat) < of_int (c ^ nat l)" using assms(3) by (simp only: of_int_less_iff)
  also have "\<dots> = of_int c powi l" using assms(1) by (simp add: power_int_def)
  finally show "(of_int n :: rat) < of_int c powi l" .
qed

lemma ilog2_bounds:
  assumes "0 < q"
  shows "2 powi (ilog2 q) \<le> q \<and> q < 2 powi (ilog2 q + 1)"
proof -
  obtain a b where ab: "quotient_of q = (a, b)" by (cases "quotient_of q")
  from quotient_of_pos [OF assms ab] have pos: "0 < a" "0 < b" .
  have w: "2 powi (blen a - blen b - 1) < q \<and> q < 2 powi (blen a - blen b + 1)"
    using of_int_pow_bounds [of "blen a" 2 a] of_int_pow_bounds [of "blen b" 2 b]
      blen_bounds [OF pos(1)] blen_bounds [OF pos(2)] blen_pos [OF pos(1)] blen_pos [OF pos(2)]
    by (intro ilog_window [OF _ assms ab]) simp_all
  show ?thesis
  proof (cases "2 powi (blen a - blen b) \<le> q")
    case True
    then have "ilog2 q = blen a - blen b" by (simp add: ilog2_def ab pow2_powi)
    with True w show ?thesis by simp
  next
    case False
    then have "ilog2 q = blen a - blen b - 1" by (simp add: ilog2_def ab pow2_powi)
    with False w show ?thesis by simp
  qed
qed

lemma ilog10_bounds:
  assumes "0 < q"
  shows "10 powi (ilog10 q) \<le> q \<and> q < 10 powi (ilog10 q + 1)"
proof -
  obtain a b where ab: "quotient_of q = (a, b)" by (cases "quotient_of q")
  from quotient_of_pos [OF assms ab] have pos: "0 < a" "0 < b" .
  have w: "10 powi (dlen a - dlen b - 1) < q \<and> q < 10 powi (dlen a - dlen b + 1)"
    using of_int_pow_bounds [of "dlen a" 10 a] of_int_pow_bounds [of "dlen b" 10 b]
      dlen_bounds [OF pos(1)] dlen_bounds [OF pos(2)] dlen_pos [OF pos(1)] dlen_pos [OF pos(2)]
    by (intro ilog_window [OF _ assms ab]) simp_all
  show ?thesis
  proof (cases "10 powi (dlen a - dlen b) \<le> q")
    case True
    then have "ilog10 q = dlen a - dlen b" by (simp add: ilog10_def ab pow10_powi)
    with True w show ?thesis by simp
  next
    case False
    then have "ilog10 q = dlen a - dlen b - 1" by (simp add: ilog10_def ab pow10_powi)
    with False w show ?thesis by simp
  qed
qed


subsection \<open>Rounding to binary64\<close>

lemma round_half_even_of_int: "round_half_even (of_int m) = m"
  by (simp add: round_half_even_def)

lemma round_half_even_ge_floor: "\<lfloor>x\<rfloor> \<le> round_half_even x"
  by (simp add: round_half_even_def Let_def)

lemma powi_less_cancel:
  fixes c :: rat
  assumes "1 < c" and "c powi m < c powi n"
  shows "m < n"
proof (rule ccontr)
  assume "\<not> m < n"
  then have "n \<le> m" by simp
  then have "c powi n \<le> c powi m" using assms(1) by (intro power_int_increasing) simp_all
  with assms(2) show False by simp
qed

lemma powi_le_cancel:
  fixes c :: rat
  assumes "1 < c" and "c powi m \<le> c powi n"
  shows "m \<le> n"
proof (rule ccontr)
  assume "\<not> m \<le> n"
  then have "n < m" by simp
  then have "c powi n < c powi m" using assms(1) by (intro power_int_strict_increasing)
  with assms(2) show False by simp
qed

lemma powi_2_of_int: "0 \<le> k \<Longrightarrow> (2::rat) powi k = of_int (2 ^ nat k)"
  by (simp add: power_int_def)

lemma fl_pos_int:
  assumes m: "0 < m" "m \<le> 2 ^ 53"
  shows "fl (of_int m) = Fin (of_int m)"
proof -
  let ?a = "of_int m :: rat"
  let ?e = "ilog2 ?a"
  have a: "0 < ?a" using m by simp
  from ilog2_bounds [OF a] have lo: "2 powi ?e \<le> ?a" and hi: "?a < 2 powi (?e + 1)"
    by simp_all
  have "(1::rat) \<le> ?a" using m by simp
  with hi have "(2::rat) powi 0 < 2 powi (?e + 1)" by simp
  then have e0: "0 \<le> ?e" using powi_less_cancel [of 2 0 "?e + 1"] by simp
  have "?a \<le> 2 powi 53" using m(2) by (simp add: of_int_le_iff [of m "2 ^ 53", where ?'a = rat, simplified])
  with lo have "(2::rat) powi ?e \<le> 2 powi 53" by (rule order_trans)
  then have e53: "?e \<le> 53" using powi_le_cancel [of 2 ?e 53] by simp
  have mx: "max ?e (- 1022) = ?e" using e0 by simp
  have r: "of_int (round_half_even (?a / 2 powi (?e - 52))) * 2 powi (?e - 52) = ?a"
  proof (cases "?e \<le> 52")
    case True
    have "?a / 2 powi (?e - 52) = ?a * 2 powi (52 - ?e)"
      by (simp add: power_int_diff field_simps)
    also have "\<dots> = of_int (m * 2 ^ nat (52 - ?e))"
      using True by (simp add: powi_2_of_int)
    finally have "round_half_even (?a / 2 powi (?e - 52)) = m * 2 ^ nat (52 - ?e)"
      by (simp only: round_half_even_of_int)
    then have "of_int (round_half_even (?a / 2 powi (?e - 52))) * 2 powi (?e - 52)
         = ?a * (2 powi (52 - ?e) * 2 powi (?e - 52))"
      using True by (simp add: powi_2_of_int)
    also have "\<dots> = ?a" by (simp add: power_int_add [symmetric])
    finally show ?thesis .
  next
    case False
    with e53 have e: "?e = 53" by simp
    from lo m(2) have "m = 2 ^ 53"
      unfolding e by (simp add: of_int_le_iff [of "2 ^ 53" m, where ?'a = rat, simplified])
    then show ?thesis unfolding e by (simp add: round_half_even_def)
  qed
  have s: "\<not> pow2 1024 \<le> ?a"
  proof -
    have "?a \<le> 2 ^ 53" using m(2) by (simp add: of_int_le_iff [of m "2 ^ 53", where ?'a = rat, simplified])
    also have "\<dots> < pow2 1024" by (simp add: pow2_def)
    finally show ?thesis by simp
  qed
  show ?thesis
    using a s by (simp add: fl_def Let_def mx pow2_powi r)
qed


lemma fl_minus:
  "fl (- q) = (case fl q of Fin r \<Rightarrow> Fin (- r) | PInf \<Rightarrow> NInf | NInf \<Rightarrow> PInf)"
  by (cases "0 < q") (auto simp: fl_def Let_def sgn_if not_less)

lemma fl_int:
  assumes "\<bar>n\<bar> \<le> 2 ^ 53"
  shows "fl (of_int n) = Fin (of_int n)"
proof -
  consider "0 < n" | "n = 0" | "n < 0" by linarith
  then show ?thesis
  proof cases
    case 1
    with assms show ?thesis by (intro fl_pos_int) simp_all
  next
    case 2
    then show ?thesis by (simp add: fl_def)
  next
    case 3
    with assms have "fl (of_int (- n)) = Fin (of_int (- n))" by (intro fl_pos_int) simp_all
    with fl_minus [of "of_int (- n)"] show ?thesis by simp
  qed
qed

lemma fl_large:
  assumes q: "2 ^ 53 + 2 \<le> q"
  shows "fl q = PInf \<or> (\<exists>r. fl q = Fin r \<and> 2 ^ 53 + 2 \<le> r)"
proof -
  let ?e = "ilog2 q"
  have q0: "0 < q" using q by (rule less_le_trans [rotated]) simp
  from ilog2_bounds [OF q0] have lo: "2 powi ?e \<le> q" and hi: "q < 2 powi (?e + 1)"
    by simp_all
  have "(2::rat) powi 53 < q" using q by simp
  from this hi have "(2::rat) powi 53 < 2 powi (?e + 1)" by (rule less_trans)
  then have e53: "53 \<le> ?e" using powi_less_cancel [of 2 53 "?e + 1"] by simp
  then have mx: "max ?e (- 1022) = ?e" by simp
  let ?u = "(2::rat) powi (?e - 52)"
  let ?r = "of_int (round_half_even (q / ?u)) * ?u"
  have u0: "0 < ?u" by simp
  have r: "2 ^ 53 + 2 \<le> ?r"
  proof (cases "?e = 53")
    case True
    then have u: "?u = 2" by simp
    have "(2 ^ 52 + 1 :: rat) \<le> q / 2" using q by simp
    then have "(2 ^ 52 + 1 :: int) \<le> \<lfloor>q / 2\<rfloor>" by (simp add: le_floor_iff)
    also have "\<dots> \<le> round_half_even (q / 2)" by (rule round_half_even_ge_floor)
    finally have "(of_int (2 ^ 52 + 1) :: rat) \<le> of_int (round_half_even (q / 2))"
      by (simp only: of_int_le_iff)
    then show ?thesis unfolding u by simp
  next
    case False
    with e53 have e54: "54 \<le> ?e" by simp
    have "(2::rat) powi 52 = 2 powi ?e / ?u" by (simp add: power_int_diff)
    also have "\<dots> \<le> q / ?u" using lo u0 by (simp add: divide_right_mono)
    finally have "(2 ^ 52 :: rat) \<le> q / ?u" by simp
    then have "(2 ^ 52 :: int) \<le> \<lfloor>q / ?u\<rfloor>" by (simp add: le_floor_iff)
    also have "\<dots> \<le> round_half_even (q / ?u)" by (rule round_half_even_ge_floor)
    finally have "(of_int (2 ^ 52) :: rat) \<le> of_int (round_half_even (q / ?u))"
      by (simp only: of_int_le_iff)
    then have A: "of_int (2 ^ 52) * ?u \<le> ?r"
      by (rule mult_right_mono) (rule less_imp_le [OF u0])
    have B: "of_int (2 ^ 52) * ?u = 2 powi ?e"
      by (simp add: power_int_diff)
    have C: "(2::rat) powi 54 \<le> 2 powi ?e"
      using e54 by (intro power_int_increasing) simp_all
    have "(2 ^ 53 + 2 :: rat) \<le> 2 powi 54" by simp
    also note C
    also note B [symmetric]
    also note A
    finally show ?thesis .
  qed
  show ?thesis
    using q0 r by (auto simp: fl_def Let_def mx pow2_powi)
qed

lemma fl_int_above:
  assumes N: "0 \<le> N" "N \<le> 2 ^ 53" and v: "N < v" and ten: "10 dvd v"
  shows "fl (of_int v) \<noteq> Fin (of_int N)"
proof -
  consider "v \<le> 2 ^ 53" | "v = 2 ^ 53 + 1" | "2 ^ 53 + 2 \<le> v" by linarith
  then show ?thesis
  proof cases
    case 1
    with v N have "fl (of_int v) = Fin (of_int v)"
      by (intro fl_int) simp
    with v show ?thesis by simp
  next
    case 2
    with ten show ?thesis by simp
  next
    case 3
    then have "(2 ^ 53 + 2 :: rat) \<le> of_int v"
      by (simp add: of_int_le_iff [of "2 ^ 53 + 2" v, where ?'a = rat, simplified])
    from fl_large [OF this] N show ?thesis
      by (auto simp: of_int_le_iff [of N "2 ^ 53", where ?'a = rat, simplified] dest!: order_trans [of "2 ^ 53 + 2" _ "of_int N"])
  qed
qed

subsection \<open>Decimal digits\<close>

lemma digits_induct [case_names small step]:
  assumes "\<And>n. n < 10 \<Longrightarrow> P n" and "\<And>n. 10 \<le> n \<Longrightarrow> P (n div 10) \<Longrightarrow> P n"
  shows "P (n::int)"
proof (induction n rule: measure_induct_rule [of nat])
  case (less n)
  show ?case
  proof (cases "n < 10")
    case True
    then show ?thesis by (rule assms(1))
  next
    case False
    then have "nat (n div 10) < nat n" by linarith
    then have "P (n div 10)" by (rule less)
    show ?thesis
    proof (rule assms(2))
      show "10 \<le> n" using False by simp
      show "P (n div 10)" by fact
    qed
  qed
qed

lemma digits_acc_append: "digits_acc n acc = digits_acc n [] @ acc"
proof (induction n arbitrary: acc rule: digits_induct)
  case (small n)
  then show ?case by (simp add: digits_acc.simps [of n])
next
  case (step n)
  from step(1) step(2) [of "digit_char (n mod 10) # acc"] step(2) [of "[digit_char (n mod 10)]"]
  show ?case by (simp add: digits_acc.simps [of n])
qed

lemma digits_small: "n < 10 \<Longrightarrow> digits n = [digit_char n]"
  by (simp add: digits_def digits_acc.simps [of n])

lemma digits_step: "10 \<le> n \<Longrightarrow> digits n = digits (n div 10) @ [digit_char (n mod 10)]"
  using digits_acc_append [of "n div 10" "[digit_char (n mod 10)]"]
  by (simp add: digits_def digits_acc.simps [of n])

lemma digit_cases:
  assumes "0 \<le> d" and "d < 10"
  shows "d = 0 \<or> d = 1 \<or> d = 2 \<or> d = 3 \<or> d = 4 \<or> d = 5 \<or> d = 6 \<or> d = 7 \<or> d = 8 \<or> d = (9::int)"
  using assms by presburger

lemma digit_char_props:
  assumes "0 \<le> d" and "d < 10"
  shows "is_digit (digit_char d)" and "digit_val (digit_char d) = d"
    and "\<not> is_ws (digit_char d)" and "digit_char d = CHR ''0'' \<longleftrightarrow> d = 0"
  using digit_cases [OF assms]
  by (auto simp: is_digit_def digit_val_def digit_char_def is_ws_def)

lemma digits_mult_10: "1 \<le> s \<Longrightarrow> digits (s * 10) = digits s @ ''0''"
  using digits_step [of "s * 10"] by (simp add: digit_char_def)

lemma digits_mult_pow10: "1 \<le> s \<Longrightarrow> digits (s * 10 ^ j) = digits s @ replicate j (CHR ''0'')"
proof (induction j)
  case 0
  then show ?case by simp
next
  case (Suc j)
  have "1 * 1 \<le> s * 10 ^ j" using Suc.prems by (intro mult_mono) simp_all
  then have "1 \<le> s * 10 ^ j" by simp
  from digits_mult_10 [OF this] have "digits (s * 10 ^ j * 10) = digits (s * 10 ^ j) @ ''0''" .
  moreover have "s * 10 ^ Suc j = s * 10 ^ j * 10" by simp
  moreover have "replicate (Suc j) (CHR ''0'') = replicate j (CHR ''0'') @ ''0''"
    by (simp add: replicate_append_same)
  ultimately show ?case using Suc by (simp only: append_assoc)
qed

lemma digits_props:
  assumes "0 \<le> n"
  shows "list_all is_digit (digits n) \<and> digits_val (digits n) = n \<and> digits n \<noteq> [] \<and>
         (1 \<le> n \<longrightarrow> hd (digits n) \<noteq> CHR ''0'') \<and> \<not> is_ws (hd (digits n))"
  using assms
proof (induction n rule: digits_induct)
  case (small n)
  then show ?case
    using digit_char_props [of n] by (simp add: digits_small digits_val_def)
next
  case (step n)
  then have ih: "list_all is_digit (digits (n div 10))" "digits_val (digits (n div 10)) = n div 10"
    "digits (n div 10) \<noteq> []" "hd (digits (n div 10)) \<noteq> CHR ''0''"
    "\<not> is_ws (hd (digits (n div 10)))"
    by simp_all
  have m: "0 \<le> n mod 10" "n mod 10 < 10" by simp_all
  from ih digit_char_props [OF m] step(1) show ?case
    by (simp add: digits_step digits_val_def)
qed

subsection \<open>\<open>Number::toString\<close> on integers up to \<open>2 ^ 53\<close>\<close>

lemma ilog10_int:
  assumes N: "1 \<le> N" "N \<le> 2 ^ 53"
  shows "1 \<le> ilog10 (of_int N) + 1" and "ilog10 (of_int N) + 1 \<le> 16"
proof -
  let ?q = "of_int N :: rat"
  have q: "0 < ?q" using N by simp
  from ilog10_bounds [OF q] have lo: "10 powi ilog10 ?q \<le> ?q" and hi: "?q < 10 powi (ilog10 ?q + 1)"
    by simp_all
  have "(10::rat) powi 0 \<le> ?q" using N by simp
  from this hi have "(10::rat) powi 0 < 10 powi (ilog10 ?q + 1)" by (rule le_less_trans)
  then show "1 \<le> ilog10 ?q + 1" using powi_less_cancel [of 10 0 "ilog10 ?q + 1"] by simp
  have "?q \<le> 2 ^ 53" using N(2) by (simp add: of_int_le_iff [of N "2 ^ 53", where ?'a = rat, simplified])
  also have "\<dots> < 10 powi 16" by simp
  finally have "?q < 10 powi 16" .
  with lo have "(10::rat) powi ilog10 ?q < 10 powi 16" by (rule le_less_trans)
  then show "ilog10 ?q + 1 \<le> 16" using powi_less_cancel [of 10 "ilog10 ?q" 16] by simp
qed

lemma candidates_int:
  assumes N: "1 \<le> N" and k: "1 \<le> k" "int k \<le> ilog10 (of_int N) + 1"
  shows "candidates k (of_int N) =
    (let d = ilog10 (of_int N) + 1; P = 10 ^ nat (d - int k) in
      [(N div P, d),
       if N div P + 1 = 10 ^ k then (10 ^ (k - 1), d + 1) else (N div P + 1, d)])"
proof -
  let ?d = "ilog10 (of_int N) + 1"
  have p: "pow10 (?d - int k) = of_int (10 ^ nat (?d - int k))"
    using k by (simp add: pow10_def)
  show ?thesis
    unfolding candidates_def Let_def p floor_divide_of_int_eq by simp
qed

lemma cand_val_lo:
  assumes "int k \<le> d"
  shows "cand_val k (s, d) = of_int (s * 10 ^ nat (d - int k))"
  using assms by (simp add: cand_val_def pow10_def)

lemma cand_val_carry:
  assumes k: "1 \<le> k" "int k \<le> d"
  shows "cand_val k (10 ^ (k - 1), d + 1) = of_int (10 ^ k * 10 ^ nat (d - int k))"
proof -
  have "cand_val k (10 ^ (k - 1), d + 1) = (10::rat) ^ (k - 1) * 10 ^ nat (d + 1 - int k)"
    using k by (simp add: cand_val_def pow10_def)
  also have "\<dots> = 10 ^ (k - 1 + nat (d + 1 - int k))" by (simp add: power_add)
  also have "k - 1 + nat (d + 1 - int k) = k + nat (d - int k)" using k by linarith
  finally show ?thesis by (simp add: power_add)
qed


lemma div_mult_bounds:
  fixes N P :: int
  assumes "0 \<le> N" and "0 < P"
  shows "0 \<le> N div P * P" and "N div P * P \<le> N" and "N < (N div P + 1) * P"
proof -
  have e: "N = N div P * P + N mod P" by simp
  have m: "0 \<le> N mod P" "N mod P < P" using assms(2) by simp_all
  show "0 \<le> N div P * P" using assms by (simp add: pos_imp_zdiv_nonneg_iff)
  show "N div P * P \<le> N" using e m(1) by linarith
  have "(N div P + 1) * P = N div P * P + P" by (simp add: algebra_simps)
  then show "N < (N div P + 1) * P" using e m(2) by linarith
qed

lemma lo_valid_iff:
  assumes N: "1 \<le> N" "N \<le> 2 ^ 53" and P: "0 < P"
  shows "fl (of_int (N div P * P)) = Fin (of_int N) \<longleftrightarrow> P dvd N"
proof -
  from N P have b: "0 \<le> N div P * P" "N div P * P \<le> N"
    by (simp_all add: div_mult_bounds)
  with N have "fl (of_int (N div P * P)) = Fin (of_int (N div P * P))"
    by (intro fl_int) simp
  moreover have "N div P * P = N \<longleftrightarrow> P dvd N"
    by (metis dvd_div_mult_self dvd_triv_right)
  ultimately show ?thesis by (simp only: jsnum.inject of_int_eq_iff)
qed

lemma hi_invalid:
  assumes N: "1 \<le> N" "N \<le> 2 ^ 53" and P: "0 < P" "10 dvd P"
  shows "fl (of_int ((N div P + 1) * P)) \<noteq> Fin (of_int N)"
proof (rule fl_int_above)
  show "0 \<le> N" using N by simp
  show "N \<le> 2 ^ 53" by fact
  show "N < (N div P + 1) * P" using N P by (simp add: div_mult_bounds)
  show "10 dvd (N div P + 1) * P" using P(2) by (rule dvd_mult)
qed

lemma closer_exact:
  assumes "cand_val k c = q" and "cand_val k d \<noteq> q"
  shows "closer k q c d = c"
  using assms by (simp add: closer_def Let_def)

lemma shortest_int:
  assumes N: "1 \<le> N" "N \<le> 2 ^ 53"
  shows "1 \<le> k \<Longrightarrow> int k \<le> ilog10 (of_int N) + 1 \<Longrightarrow> ilog10 (of_int N) + 1 < int k + int f \<Longrightarrow>
    \<exists>k'. shortest f k (of_int N) =
            (N div 10 ^ nat (ilog10 (of_int N) + 1 - int k'), ilog10 (of_int N) + 1, k') \<and>
         1 \<le> k' \<and> int k' \<le> ilog10 (of_int N) + 1 \<and>
         10 ^ nat (ilog10 (of_int N) + 1 - int k') dvd N"
proof (induction f arbitrary: k)
  case 0
  then show ?case by simp
next
  case (Suc f)
  let ?d = "ilog10 (of_int N) + 1"
  let ?P = "10 ^ nat (?d - int k) :: int"
  let ?c1 = "(N div ?P, ?d)"
  let ?c2 = "if N div ?P + 1 = 10 ^ k then (10 ^ (k - 1), ?d + 1) else (N div ?P + 1, ?d)"
  have P0: "0 < ?P" by simp
  have cs: "candidates k (of_int N) = [?c1, ?c2]"
    using candidates_int [OF N(1) Suc.prems(1,2)] by (simp add: Let_def)
  have v1: "cand_val k ?c1 = of_int (N div ?P * ?P)"
    using Suc.prems(2) by (simp only: cand_val_lo)
  have v2: "cand_val k ?c2 = of_int ((N div ?P + 1) * ?P)"
  proof (cases "N div ?P + 1 = 10 ^ k")
    case True
    then show ?thesis using cand_val_carry [OF Suc.prems(1,2)] by simp
  next
    case False
    then show ?thesis using Suc.prems(2) by (simp only: cand_val_lo if_False)
  qed
  show ?case
  proof (cases "?P dvd N")
    case True
    then have e1: "cand_val k ?c1 = of_int N" unfolding v1 by simp
    have "N < (N div ?P + 1) * ?P" using N P0 by (intro div_mult_bounds) simp_all
    then have e2: "cand_val k ?c2 \<noteq> of_int N" unfolding v2 of_int_eq_iff by linarith
    have ok1: "fl (cand_val k ?c1) = Fin (of_int N)"
      unfolding e1 using N by (intro fl_int) simp
    have "shortest (Suc f) k (of_int N) = (N div ?P, ?d, k)"
      using closer_exact [OF e1 e2] ok1
      by (simp only: shortest.simps cs) simp
    with True Suc.prems show ?thesis by blast
  next
    case False
    then have "?P \<noteq> 1" by auto
    then have lt: "int k < ?d" using Suc.prems(2) by (cases "int k = ?d") simp_all
    then have "nat (?d - int k) = Suc (nat (?d - int k - 1))" by simp
    then have ten: "10 dvd ?P" by (simp only: power_Suc dvd_triv_left)
    have no1: "fl (cand_val k ?c1) \<noteq> Fin (of_int N)"
      unfolding v1 using lo_valid_iff [OF N P0] False by simp
    have no2: "fl (cand_val k ?c2) \<noteq> Fin (of_int N)"
      unfolding v2 by (rule hi_invalid [OF N P0 ten])
    have "shortest (Suc f) k (of_int N) = shortest f (Suc k) (of_int N)"
      using no1 no2 by (simp only: shortest.simps cs) simp
    moreover have "\<exists>k'. shortest f (Suc k) (of_int N) =
            (N div 10 ^ nat (?d - int k'), ?d, k') \<and> 1 \<le> k' \<and> int k' \<le> ?d \<and>
         10 ^ nat (?d - int k') dvd N"
      using lt Suc.prems by (intro Suc.IH) simp_all
    ultimately show ?thesis by simp
  qed
qed

lemma to_string_pos_int:
  assumes N: "1 \<le> N" "N \<le> 2 ^ 53"
  shows "to_string_pos (of_int N) = digits N"
proof -
  let ?d = "ilog10 (of_int N) + 1"
  from ilog10_int [OF N] have d: "int 1 \<le> ?d" "?d < int 1 + int 16" by simp_all
  from shortest_int [OF N _ d] obtain k' where
    sh: "shortest 16 1 (of_int N) = (N div 10 ^ nat (?d - int k'), ?d, k')"
    and k': "1 \<le> k'" "int k' \<le> ?d" and dv: "10 ^ nat (?d - int k') dvd N"
    by auto
  let ?j = "nat (?d - int k')"
  let ?s = "N div 10 ^ ?j"
  from dv have e: "?s * 10 ^ ?j = N" by simp
  have s1: "1 \<le> ?s"
  proof (rule ccontr)
    assume "\<not> 1 \<le> ?s"
    then have "?s \<le> 0" by simp
    then have "?s * 10 ^ ?j \<le> 0" by (simp add: mult_le_0_iff)
    with e N(1) show False by simp
  qed
  have "to_string_pos (of_int N) = digits ?s @ replicate ?j (CHR ''0'')"
    unfolding to_string_pos_def sh using k' d by simp
  also have "\<dots> = digits (?s * 10 ^ ?j)" using s1 by (simp only: digits_mult_pow10)
  finally show ?thesis by (simp only: e)
qed

lemma Number_toString_int:
  assumes "\<bar>n\<bar> \<le> 2 ^ 53"
  shows "Number_toString (Fin (of_int n)) = show_int n"
proof -
  consider "0 < n" | "n = 0" | "n < 0" by linarith
  then show ?thesis
  proof cases
    case 1
    with assms have "to_string_pos (of_int n) = digits n" by (intro to_string_pos_int) simp_all
    with 1 show ?thesis by (simp add: Number_toString_def show_int_def)
  next
    case 2
    then show ?thesis by (simp add: Number_toString_def show_int_def digits_small digit_char_def)
  next
    case 3
    with assms have "to_string_pos (of_int (- n)) = digits (- n)"
      by (intro to_string_pos_int) simp_all
    with 3 show ?thesis by (simp add: Number_toString_def show_int_def)
  qed
qed

lemma JSON_number_int: "\<bar>n\<bar> \<le> 2 ^ 53 \<Longrightarrow> JSON_number (Fin (of_int n)) = show_int n"
  by (simp add: JSON_number_def Number_toString_int)

subsection \<open>Rounding of arbitrary values\<close>



lemma powi10_split: "(10::rat) powi (a + b) = 10 powi a * 10 powi b"
  by (rule power_int_add) simp














subsection \<open>\<open>Number::toString\<close> on integer values of any size\<close>









section \<open>Properties of the JSON model\<close>

subsection \<open>The bound on nested calls is never exhausted\<close>

text \<open>
  A successful parse consumes at least one character, and succeeds again, with the same
  result, under every bound that is at least the number of characters it consumed.
\<close>

lemma skip_ws_length: "length (skip_ws s) \<le> length s"
  by (simp add: skip_ws_def length_dropWhile_le)

lemma skip_ws_Cons: "skip_ws s = c # t \<Longrightarrow> length t < length s"
  using skip_ws_length [of s] by simp

lemma parse_string_shorter: "parse_string s = Some (k, r) \<Longrightarrow> length r < length s"
proof (induction s arbitrary: k rule: parse_string.induct)
  case 1
  then show ?case by simp
next
  case (2 c cs)
  then show ?case
    by (fastforce split: if_splits list.splits option.splits)
qed

lemma parse_frac_length:
  assumes "parse_frac s = Some (fp, r)"
  shows "length r \<le> length s"
proof (cases s)
  case Nil
  with assms show ?thesis by (simp add: parse_frac_def)
next
  case (Cons c t)
  have "length (dropWhile is_digit t) \<le> length t" by (rule length_dropWhile_le)
  with assms Cons show ?thesis by (auto simp: parse_frac_def split: if_splits)
qed

lemma parse_exp_length:
  assumes "parse_exp s = Some (e, r)"
  shows "length r \<le> length s"
proof (cases s)
  case Nil
  with assms show ?thesis by (simp add: parse_exp_def)
next
  case (Cons c t)
  have a: "length (dropWhile is_digit t) \<le> length t" by (rule length_dropWhile_le)
  have b: "length (dropWhile is_digit (tl t)) \<le> length t"
    using length_dropWhile_le [of is_digit "tl t"] by simp
  from assms Cons a b show ?thesis
    by (cases t) (auto simp: parse_exp_def Let_def split: if_splits)
qed

lemma parse_number_shorter:
  assumes "parse_number s = Some (q, r)"
  shows "length r < length s"
proof -
  define s1 where "s1 = (case s of [] \<Rightarrow> s | c # t \<Rightarrow> if c = CHR ''-'' then t else s)"
  have s1: "length s1 \<le> length s" by (cases s) (simp_all add: s1_def)
  have sp: "(case s of [] \<Rightarrow> (False, s) | c # t \<Rightarrow> if c = CHR ''-'' then (True, t) else (False, s)) =
      ((case s of [] \<Rightarrow> False | c # t \<Rightarrow> c = CHR ''-''), s1)"
    by (cases s) (simp_all add: s1_def)
  from assms obtain fp s3 e where ip: "takeWhile is_digit s1 \<noteq> []"
    and fr: "parse_frac (dropWhile is_digit s1) = Some (fp, s3)"
    and ex: "parse_exp s3 = Some (e, r)"
    unfolding parse_number_def sp
    by (auto simp: Let_def split: if_splits option.splits)
  from ip have "length (dropWhile is_digit s1) < length s1"
    using takeWhile_dropWhile_id [of is_digit s1]
    by (metis append_eq_conv_conj length_drop diff_less length_greater_0_conv
        length_takeWhile_le less_le_trans not_less)
  with parse_frac_length [OF fr] parse_exp_length [OF ex] s1 show ?thesis by simp
qed

lemma strip_prefix_length: "strip_prefix p s = Some r \<Longrightarrow> length r \<le> length s"
  by (auto simp: strip_prefix_def split: if_splits)


lemma parse_value_ws_nil: "skip_ws s = [] \<Longrightarrow> parse_value (Suc f) s = None"
  by simp

lemma parse_value_scalar:
  "skip_ws s = c # t \<Longrightarrow> c \<noteq> CHR ''{'' \<Longrightarrow> c \<noteq> CHR ''['' \<Longrightarrow>
   parse_value (Suc f) s = parse_value (Suc 0) s"
  by simp

lemma parse_value_scalar_shorter:
  assumes sk: "skip_ws s = c # t" and c: "c \<noteq> CHR ''{''" "c \<noteq> CHR ''[''"
    and p: "parse_value (Suc 0) s = Some (v, r)"
  shows "length r < length s"
proof -
  from skip_ws_Cons [OF sk] have t: "length t < length s" .
  from skip_ws_length [of s] sk have ct: "length (c # t) \<le> length s" by simp
  show ?thesis
    using p c t ct
    by (auto simp: sk split: if_splits
        dest!: parse_string_shorter strip_prefix_length parse_number_shorter)
qed

lemma parse_value_open:
  assumes "skip_ws s = c # t" and "skip_ws t = x # t'"
  shows "c = CHR ''{'' \<Longrightarrow> x = CHR ''}'' \<Longrightarrow> parse_value (Suc f) s = Some (JObj [], t')"
    and "c = CHR ''{'' \<Longrightarrow> x \<noteq> CHR ''}'' \<Longrightarrow> parse_value (Suc f) s = parse_members f [] t"
    and "c = CHR ''['' \<Longrightarrow> x = CHR '']'' \<Longrightarrow> parse_value (Suc f) s = Some (JArr [], t')"
    and "c = CHR ''['' \<Longrightarrow> x \<noteq> CHR '']'' \<Longrightarrow> parse_value (Suc f) s = parse_elements f [] t"
  using assms by simp_all

lemma parse_value_open_nil:
  assumes "skip_ws s = c # t" and "skip_ws t = []" and "c = CHR ''{'' \<or> c = CHR ''[''"
  shows "parse_value (Suc f) s = None"
  using assms by auto


lemma parse_elements_unfold:
  "parse_value f s = Some (v1, r1) \<Longrightarrow> skip_ws r1 = x # r' \<Longrightarrow>
   parse_elements (Suc f) acc s =
     (if x = CHR '','' then parse_elements f (acc @ [v1]) r'
      else if x = CHR '']'' then Some (JArr (acc @ [v1]), r') else None)"
  by simp

lemma parse_members_unfold:
  "skip_ws s = CHR 0x22 # r0 \<Longrightarrow> parse_string r0 = Some (k, r1) \<Longrightarrow>
   skip_ws r1 = CHR '':'' # r2 \<Longrightarrow> parse_value f r2 = Some (v1, r3) \<Longrightarrow>
   skip_ws r3 = x # r4 \<Longrightarrow>
   parse_members (Suc f) acc s =
     (if x = CHR '','' then parse_members f (acc @ [(k, v1)]) r4
      else if x = CHR ''}'' then Some (JObj (acc @ [(k, v1)]), r4) else None)"
  by simp

lemma parse_fuel:
  "(\<forall>s v r. parse_value f s = Some (v, r) \<longrightarrow>
      length r < length s \<and> (\<forall>g. length s - length r \<le> g \<longrightarrow> parse_value g s = Some (v, r))) \<and>
   (\<forall>s acc v r. parse_elements f acc s = Some (v, r) \<longrightarrow>
      length r < length s \<and>
      (\<forall>g. length s - length r \<le> g \<longrightarrow> parse_elements g acc s = Some (v, r))) \<and>
   (\<forall>s acc v r. parse_members f acc s = Some (v, r) \<longrightarrow>
      length r < length s \<and>
      (\<forall>g. length s - length r \<le> g \<longrightarrow> parse_members g acc s = Some (v, r)))"
proof (induction f)
  case 0
  show ?case by simp
next
  case (Suc f)
  have ihv: "length r < length s \<and> (\<forall>g. length s - length r \<le> g \<longrightarrow> parse_value g s = Some (v, r))"
    if "parse_value f s = Some (v, r)" for s v r
    using Suc that by blast
  have ihe: "length r < length s \<and>
      (\<forall>g. length s - length r \<le> g \<longrightarrow> parse_elements g acc s = Some (v, r))"
    if "parse_elements f acc s = Some (v, r)" for s acc v r
    using Suc that by blast
  have ihm: "length r < length s \<and>
      (\<forall>g. length s - length r \<le> g \<longrightarrow> parse_members g acc s = Some (v, r))"
    if "parse_members f acc s = Some (v, r)" for s acc v r
    using Suc that by blast
  have V: "length r < length s \<and> (\<forall>g. length s - length r \<le> g \<longrightarrow> parse_value g s = Some (v, r))"
    if a: "parse_value (Suc f) s = Some (v, r)" for s v r
  proof -
    from a obtain c t where sk: "skip_ws s = c # t"
      by (cases "skip_ws s") simp_all
    note lt = skip_ws_Cons [OF sk]
    show ?thesis
    proof (cases "c = CHR ''{'' \<or> c = CHR ''[''")
      case False
      then have c: "c \<noteq> CHR ''{''" "c \<noteq> CHR ''[''" by simp_all
      from a have p0: "parse_value (Suc 0) s = Some (v, r)"
        using parse_value_scalar [OF sk c, of f] by simp
      have len: "length r < length s"
        by (rule parse_value_scalar_shorter [OF sk c p0])
      have "parse_value g s = Some (v, r)" if "length s - length r \<le> g" for g
      proof -
        from that len obtain g' where "g = Suc g'" by (cases g) simp_all
        then show ?thesis using parse_value_scalar [OF sk c, of g'] p0 by simp
      qed
      with len show ?thesis by blast
    next
      case True
      from a obtain x t' where sk2: "skip_ws t = x # t'"
        using parse_value_open_nil [OF sk _ True, of f] by (cases "skip_ws t") auto
      note lt2 = skip_ws_Cons [OF sk2]
      note op = parse_value_open [OF sk sk2]
      show ?thesis
      proof (cases "(c = CHR ''{'' \<and> x = CHR ''}'') \<or> (c = CHR ''['' \<and> x = CHR '']'')")
        case True
        then have e: "parse_value (Suc h) s = parse_value (Suc f) s" for h
          using op(1) [of h] op(1) [of f] op(3) [of h] op(3) [of f] by auto
        from True a have r: "r = t'" using op(1) [of f] op(3) [of f] by auto
        then have len: "length r < length s" using lt lt2 by simp
        have "parse_value g s = Some (v, r)" if "length s - length r \<le> g" for g
        proof -
          from that len obtain g' where "g = Suc g'" by (cases g) simp_all
          then show ?thesis using e [of g'] a by simp
        qed
        with len show ?thesis by blast
      next
        case False
        show ?thesis
        proof (cases "c = CHR ''{''")
          case True
          with False have x: "x \<noteq> CHR ''}''" by simp
          from a have m: "parse_members f [] t = Some (v, r)"
            using op(2) [OF True x, of f] by simp
          from ihm [OF m] have len: "length r < length t"
            and fu: "\<And>g. length t - length r \<le> g \<Longrightarrow> parse_members g [] t = Some (v, r)"
            by simp_all
          have "parse_value g s = Some (v, r)" if "length s - length r \<le> g" for g
          proof -
            from that len lt obtain g' where g: "g = Suc g'" by (cases g) simp_all
            with that lt have "length t - length r \<le> g'" by simp
            from fu [OF this] show ?thesis using op(2) [OF True x, of g'] g by simp
          qed
          with len lt show ?thesis by simp
        next
          case c: False
          with \<open>c = CHR ''{'' \<or> c = CHR ''[''\<close> have b: "c = CHR ''[''" by simp
          with False have x: "x \<noteq> CHR '']''" by simp
          from a have m: "parse_elements f [] t = Some (v, r)"
            using op(4) [OF b x, of f] by simp
          from ihe [OF m] have len: "length r < length t"
            and fu: "\<And>g. length t - length r \<le> g \<Longrightarrow> parse_elements g [] t = Some (v, r)"
            by simp_all
          have "parse_value g s = Some (v, r)" if "length s - length r \<le> g" for g
          proof -
            from that len lt obtain g' where g: "g = Suc g'" by (cases g) simp_all
            with that lt have "length t - length r \<le> g'" by simp
            from fu [OF this] show ?thesis using op(4) [OF b x, of g'] g by simp
          qed
          with len lt show ?thesis by simp
        qed
      qed
    qed
  qed
  have E: "length r < length s \<and>
      (\<forall>g. length s - length r \<le> g \<longrightarrow> parse_elements g acc s = Some (v, r))"
    if a: "parse_elements (Suc f) acc s = Some (v, r)" for s acc v r
  proof -
    from a obtain v1 r1 where pv: "parse_value f s = Some (v1, r1)"
      by (cases "parse_value f s") auto
    from ihv [OF pv] have l1: "length r1 < length s"
      and f1: "\<And>g. length s - length r1 \<le> g \<Longrightarrow> parse_value g s = Some (v1, r1)"
      by simp_all
    from a pv obtain x r' where sk: "skip_ws r1 = x # r'"
      by (cases "skip_ws r1") auto
    note l2 = skip_ws_Cons [OF sk]
    note un = parse_elements_unfold [OF _ sk]
    show ?thesis
    proof (cases "x = CHR '',''")
      case True
      from a have m: "parse_elements f (acc @ [v1]) r' = Some (v, r)"
        using un [OF pv, of acc] True by simp
      from ihe [OF m] have len: "length r < length r'"
        and fu: "\<And>g. length r' - length r \<le> g \<Longrightarrow>
                   parse_elements g (acc @ [v1]) r' = Some (v, r)"
        by simp_all
      have "parse_elements g acc s = Some (v, r)" if "length s - length r \<le> g" for g
      proof -
        from that len l1 l2 obtain g' where g: "g = Suc g'" by (cases g) simp_all
        with that len l1 l2 have b: "length s - length r1 \<le> g'" "length r' - length r \<le> g'"
          by simp_all
        from un [OF f1 [OF b(1)], of acc] fu [OF b(2)] True g show ?thesis by simp
      qed
      with len l1 l2 show ?thesis by simp
    next
      case False
      from a have e: "x = CHR '']''" "v = JArr (acc @ [v1])" "r = r'"
        using un [OF pv, of acc] False by (simp_all split: if_splits)
      have "parse_elements g acc s = Some (v, r)" if "length s - length r \<le> g" for g
      proof -
        from that e l1 l2 obtain g' where g: "g = Suc g'" by (cases g) simp_all
        with that e l1 l2 have b: "length s - length r1 \<le> g'" by simp
        from un [OF f1 [OF b], of acc] e False g show ?thesis by simp
      qed
      with e l1 l2 show ?thesis by simp
    qed
  qed
  have M: "length r < length s \<and>
      (\<forall>g. length s - length r \<le> g \<longrightarrow> parse_members g acc s = Some (v, r))"
    if a: "parse_members (Suc f) acc s = Some (v, r)" for s acc v r
  proof -
    from a obtain q r0 where sk0: "skip_ws s = q # r0"
      by (cases "skip_ws s") simp_all
    from a sk0 have q: "q = CHR 0x22" by (simp split: if_splits)
    from a sk0 q obtain k r1 where ps: "parse_string r0 = Some (k, r1)"
      by (cases "parse_string r0") auto
    from a sk0 q ps obtain y r2 where sk1: "skip_ws r1 = y # r2"
      by (cases "skip_ws r1") auto
    from a sk0 q ps sk1 have y: "y = CHR '':''" by (simp split: if_splits)
    from a sk0 q ps sk1 y obtain v1 r3 where pv: "parse_value f r2 = Some (v1, r3)"
      by (cases "parse_value f r2") auto
    from a sk0 q ps sk1 y pv obtain x r4 where sk3: "skip_ws r3 = x # r4"
      by (cases "skip_ws r3") auto
    note l0 = skip_ws_Cons [OF sk0]
    note l1 = parse_string_shorter [OF ps]
    note l2 = skip_ws_Cons [OF sk1]
    from ihv [OF pv] have l3: "length r3 < length r2"
      and f1: "\<And>g. length r2 - length r3 \<le> g \<Longrightarrow> parse_value g r2 = Some (v1, r3)"
      by simp_all
    note l4 = skip_ws_Cons [OF sk3]
    note un = parse_members_unfold [OF sk0 [unfolded q] ps sk1 [unfolded y] _ sk3]
    show ?thesis
    proof (cases "x = CHR '',''")
      case True
      from a have m: "parse_members f (acc @ [(k, v1)]) r4 = Some (v, r)"
        using un [OF pv, of acc] True by simp
      from ihm [OF m] have len: "length r < length r4"
        and fu: "\<And>g. length r4 - length r \<le> g \<Longrightarrow>
                   parse_members g (acc @ [(k, v1)]) r4 = Some (v, r)"
        by simp_all
      have "parse_members g acc s = Some (v, r)" if "length s - length r \<le> g" for g
      proof -
        from that len l0 l1 l2 l3 l4 obtain g' where g: "g = Suc g'" by (cases g) simp_all
        with that len l0 l1 l2 l3 l4
        have b: "length r2 - length r3 \<le> g'" "length r4 - length r \<le> g'"
          by simp_all
        from un [OF f1 [OF b(1)], of acc] fu [OF b(2)] True g show ?thesis by simp
      qed
      with len l0 l1 l2 l3 l4 show ?thesis by simp
    next
      case False
      from a have e: "x = CHR ''}''" "v = JObj (acc @ [(k, v1)])" "r = r4"
        using un [OF pv, of acc] False by (simp_all split: if_splits)
      have "parse_members g acc s = Some (v, r)" if "length s - length r \<le> g" for g
      proof -
        from that e l0 l1 l2 l3 l4 obtain g' where g: "g = Suc g'" by (cases g) simp_all
        with that e l0 l1 l2 l3 l4 have b: "length r2 - length r3 \<le> g'" by simp
        from un [OF f1 [OF b], of acc] e False g show ?thesis by simp
      qed
      with e l0 l1 l2 l3 l4 show ?thesis by simp
    qed
  qed
  from V E M show ?case by blast
qed


lemma parse_value_fuel:
  assumes "parse_value f s = Some x"
  shows "parse_value (2 * length s + 2) s = Some x"
proof -
  obtain v r where x: "x = (v, r)" by (cases x)
  from parse_fuel [of f] assms [unfolded x]
  have a: "\<forall>g. length s - length r \<le> g \<longrightarrow> parse_value g s = Some (v, r)" by blast
  have b: "length s - length r \<le> 2 * length s + 2" by simp
  from a b show ?thesis unfolding x by blast
qed

text \<open>Any larger bound gives the same result: \<open>JSON_parse\<close> does not depend on it.\<close>

lemma parse_value_fuel_indep:
  assumes "2 * length s + 2 \<le> f"
  shows "parse_value f s = parse_value (2 * length s + 2) s"
proof (cases "parse_value f s")
  case (Some x)
  show ?thesis by (rule trans [OF Some parse_value_fuel [OF Some, symmetric]])
next
  case None
  show ?thesis
  proof (cases "parse_value (2 * length s + 2) s")
    case None
    with \<open>parse_value f s = None\<close> show ?thesis by simp
  next
    case (Some x)
    obtain v r where x: "x = (v, r)" by (cases x)
    from parse_fuel [of "2 * length s + 2"] Some [unfolded x]
    have "\<forall>g. length s - length r \<le> g \<longrightarrow> parse_value g s = Some (v, r)" by blast
    moreover have "length s - length r \<le> f" using assms by simp
    ultimately have "parse_value f s = Some (v, r)" by blast
    with None show ?thesis by simp
  qed
qed

subsection \<open>Reading a decimal numeral\<close>

lemma takeWhile_dropWhile_append:
  assumes "list_all P xs" and "rest = [] \<or> \<not> P (hd rest)"
  shows "takeWhile P (xs @ rest) = xs" and "dropWhile P (xs @ rest) = rest"
proof -
  from assms(2) have "takeWhile P rest = []" "dropWhile P rest = rest"
    by (cases rest; simp)+
  with assms(1) show "takeWhile P (xs @ rest) = xs" and "dropWhile P (xs @ rest) = rest"
    by (induction xs) simp_all
qed

lemma parse_frac_end: "number_end rest \<Longrightarrow> parse_frac rest = Some ([], rest)"
  by (cases rest) (simp_all add: parse_frac_def number_end_def)

lemma parse_exp_end: "number_end rest \<Longrightarrow> parse_exp rest = Some (0, rest)"
  by (cases rest) (simp_all add: parse_exp_def number_end_def)

lemma parse_number_digits:
  assumes n: "0 \<le> n" and rest: "number_end rest"
  shows "parse_number (digits n @ rest) = Some (of_int n, rest)"
proof -
  from digits_props [OF n] have all: "list_all is_digit (digits n)"
    and val: "digits_val (digits n) = n" and ne: "digits n \<noteq> []"
    and hd0: "1 \<le> n \<longrightarrow> hd (digits n) \<noteq> CHR ''0''"
    by simp_all
  from rest have r: "rest = [] \<or> \<not> is_digit (hd rest)" by (auto simp: number_end_def)
  note td = takeWhile_dropWhile_append [OF all r]
  from ne obtain c r where cr: "digits n = c # r" by (cases "digits n") simp_all
  with all have "is_digit c" by simp
  then have c: "c \<noteq> CHR ''-''" by (auto simp: is_digit_def)
  have lead: "\<not> (1 < length (digits n) \<and> hd (digits n) = CHR ''0'')"
  proof (cases "1 \<le> n")
    case True
    with hd0 show ?thesis by simp
  next
    case False
    with n have "n = 0" by simp
    then show ?thesis by (simp add: digits_small)
  qed
  have split: "(case digits n @ rest of [] \<Rightarrow> (False, digits n @ rest)
       | c # r \<Rightarrow> if c = CHR ''-'' then (True, r) else (False, digits n @ rest)) =
     (False, digits n @ rest)"
    using c by (simp add: cr)
  show ?thesis
    unfolding parse_number_def split
    using lead ne by (simp add: Let_def td parse_frac_end [OF rest] parse_exp_end [OF rest] val pow10_def)
qed

lemma parse_number_int:
  assumes rest: "number_end rest"
  shows "parse_number (show_int n @ rest) = Some (of_int n, rest)"
proof (cases "n < 0")
  case False
  then show ?thesis using parse_number_digits [OF _ rest, of n] by (simp add: show_int_def)
next
  case True
  then have n: "0 \<le> - n" by simp
  from digits_props [OF n] have all: "list_all is_digit (digits (- n))"
    and val: "digits_val (digits (- n)) = - n" and ne: "digits (- n) \<noteq> []"
    and hd0: "1 \<le> - n \<longrightarrow> hd (digits (- n)) \<noteq> CHR ''0''"
    by simp_all
  from rest have r: "rest = [] \<or> \<not> is_digit (hd rest)" by (auto simp: number_end_def)
  note td = takeWhile_dropWhile_append [OF all r]
  from True hd0 have lead: "\<not> (1 < length (digits (- n)) \<and> hd (digits (- n)) = CHR ''0'')"
    by simp
  show ?thesis
    using True lead ne
    by (simp add: show_int_def parse_number_def Let_def td parse_frac_end [OF rest]
        parse_exp_end [OF rest] val pow10_def)
qed

lemma show_int_hd: "\<exists>c r. show_int n = c # r \<and> (c = CHR ''-'' \<or> is_digit c)"
proof (cases "n < 0")
  case True
  then show ?thesis by (simp add: show_int_def)
next
  case False
  then have n: "0 \<le> n" by simp
  from digits_props [OF n] obtain c r where "digits n = c # r" "is_digit c"
    by (cases "digits n") auto
  with False show ?thesis by (simp add: show_int_def)
qed

lemma parse_value_int:
  assumes rest: "number_end rest" and n: "\<bar>n\<bar> \<le> 2 ^ 53"
  shows "parse_value (Suc f) (CHR '' '' # show_int n @ rest) = Some (JNum (Fin (of_int n)), rest)"
proof -
  from show_int_hd obtain c r where cr: "show_int n = c # r" and c: "c = CHR ''-'' \<or> is_digit c"
    by blast
  from c have nws: "\<not> is_ws c" by (auto simp: is_ws_def is_digit_def)
  from c have sp: "c \<noteq> CHR ''{''" "c \<noteq> CHR ''[''" "c \<noteq> CHR 0x22" "c \<noteq> CHR ''t''"
    "c \<noteq> CHR ''f''" "c \<noteq> CHR ''n''"
    by (auto simp: is_digit_def)
  have sk: "skip_ws (CHR '' '' # show_int n @ rest) = c # (r @ rest)"
    using nws by (simp add: skip_ws_def is_ws_def cr)
  have pn: "parse_number (c # (r @ rest)) = Some (of_int n, rest)"
    using parse_number_int [OF rest, of n] by (simp add: cr)
  show ?thesis
    unfolding parse_value.simps sk using sp by (simp add: pn fl_int [OF n])
qed

subsection \<open>Reading back what \<open>writeCount\<close> wrote\<close>

lemma parse_count_2:
  assumes n: "\<bar>n\<bar> \<le> 2 ^ 53"
  shows "JSON_parse (stringify_count_2 (Fin (of_int n))) =
         Inr (JObj [(count_key, JNum (Fin (of_int n)))])"
proof -
  let ?tail = "CHR '' '' # show_int n @ [CHR 0x0A, CHR ''}'']"
  let ?s = "stringify_count_2 (Fin (of_int n))"
  have s: \<open>?s = CHR ''{'' # CHR 0x0A # ''  "count":'' @ ?tail\<close>
    by (simp add: stringify_count_2_def JSON_number_int [OF n])
  have "\<exists>f. 2 * length ?s + 2 = Suc (Suc (Suc f))"
    unfolding s by (intro exI [of _ "2 * length ?s - 1"]) (simp add: s)
  then obtain f where fuel: "2 * length ?s + 2 = Suc (Suc (Suc f))" ..
  have ne: "number_end [CHR 0x0A, CHR ''}'']"
    by (simp add: number_end_def is_digit_def)
  have inner: "parse_value (Suc f) ?tail = Some (JNum (Fin (of_int n)), [CHR 0x0A, CHR ''}''])"
    by (rule parse_value_int [OF ne n])
  have members: \<open>parse_members (Suc (Suc f)) [] (CHR 0x0A # ''  "count":'' @ ?tail) =
      Some (JObj [(count_key, JNum (Fin (of_int n)))], [])\<close>
    by (simp add: skip_ws_def is_ws_def inner count_key_def del: parse_value.simps)
  have "parse_value (Suc (Suc (Suc f))) ?s = Some (JObj [(count_key, JNum (Fin (of_int n)))], [])"
    unfolding s parse_value.simps using members
    by (simp add: skip_ws_def is_ws_def del: parse_members.simps)
  then show ?thesis
    unfolding JSON_parse_def fuel by (simp add: skip_ws_def del: parse_value.simps)
qed

subsection \<open>Printing and reading back an integer of any size\<close>








section \<open>Properties of the handler\<close>

subsection \<open>Responses\<close>

lemma cors_response:
  "fold (\<lambda>h. setHeader (fst h) (snd h)) cors_headers new_response =
     \<lparr>statusCode = 200, headers = cors_headers, body = []\<rparr>"
  by (simp add: cors_headers_def new_response_def setHeader_def)

lemma writeHead_json:
  "writeHead st json_type \<lparr>statusCode = 200, headers = cors_headers, body = []\<rparr> =
     \<lparr>statusCode = st, headers = cors_headers @ json_type, body = []\<rparr>"
  by (simp add: writeHead_def json_type_def cors_headers_def setHeader_def)

lemma writeHead_html:
  "writeHead st html_type \<lparr>statusCode = 200, headers = cors_headers, body = []\<rparr> =
     \<lparr>statusCode = st, headers = cors_headers @ html_type, body = []\<rparr>"
  by (simp add: writeHead_def html_type_def cors_headers_def setHeader_def)

lemma server_headers:
  assumes "server HTML io req fs = (Some r, fs')"
  shows "headers r = cors_headers \<or> headers r = cors_headers @ json_type \<or>
         headers r = cors_headers @ html_type"
  using assms
  by (auto simp: server_def try_block_def cors_response writeHead_json writeHead_html
        res_end_def has_body_def Let_def
      split: sum.splits if_splits prod.splits)

lemma unparsed_url_no_response:
  "pathname req = Inl e \<Longrightarrow> server HTML io req fs = (None, fs)"
  by (simp add: server_def)




text \<open>
  Claim C6, as stated: every request outside the three routes, \<open>OPTIONS\<close> apart, is
  answered with status 404 and the JSON body \<open>{"error":"Not found"}\<close>. A \<open>HEAD\<close> request
  to an unknown path is answered with status 404 and no body, since Node sends no body
  in answer to \<open>HEAD\<close>; and a request whose URL \<open>url.parse\<close> rejects gets no response.
\<close>

theorem unknown_route_counterexample:
  "server ''page'' io_ok \<lparr>req_method = ''HEAD'', pathname = Inr (Some ''/nowhere'')\<rparr> None =
     (Some \<lparr>statusCode = 404, headers = cors_headers @ json_type, body = []\<rparr>, None) \<and>
   server ''page'' io_ok \<lparr>req_method = ''GET'', pathname = Inl TypeError\<rparr> None = (None, None)"
  by (simp add: unparsed_url_no_response)
    (simp add: server_def try_block_def cors_response writeHead_json res_end_def has_body_def
      Let_def)

text \<open>
  Claim C6, amended. A request whose URL \<open>url.parse\<close> accepts, that is not an \<open>OPTIONS\<close>
  request and whose path and method are none of \<open>GET /\<close>, \<open>GET /api/count\<close> and
  \<open>POST /api/increment\<close>, is answered with status 404; the body is the JSON text
  \<open>{"error":"Not found"}\<close>, except in answer to a \<open>HEAD\<close> request, where it is empty.
\<close>

theorem unknown_route_404:
  assumes "pathname req = Inr p" and "req_method req \<noteq> ''OPTIONS''"
    and "\<not> (p = Some ''/'' \<and> req_method req = ''GET'')"
    and "\<not> (p = Some ''/api/count'' \<and> req_method req = ''GET'')"
    and "\<not> (p = Some ''/api/increment'' \<and> req_method req = ''POST'')"
  shows \<open>server HTML io req fs =
    (Some \<lparr>statusCode = 404, headers = cors_headers @ json_type,
            body = (if req_method req = ''HEAD'' then [] else ''{"error":"Not found"}'')\<rparr>,
     fs)\<close>
  using assms
  by (auto simp: server_def try_block_def cors_response writeHead_json res_end_def has_body_def
        stringify_error_def Let_def)

theorem unknown_route_404_witness:
  \<open>server ''page'' io_ok \<lparr>req_method = ''GET'', pathname = Inr (Some ''/api/increment'')\<rparr> None =
    (Some \<lparr>statusCode = 404, headers = cors_headers @ json_type,
            body = ''{"error":"Not found"}''\<rparr>, None) \<and>
   server ''page'' io_ok \<lparr>req_method = ''HEAD'', pathname = Inr (Some ''/api/count'')\<rparr> None =
    (Some \<lparr>statusCode = 404, headers = cors_headers @ json_type, body = []\<rparr>, None)\<close>
  using unknown_route_404
    [of "\<lparr>req_method = ''GET'', pathname = Inr (Some ''/api/increment'')\<rparr>"
        "Some ''/api/increment''" "''page''" io_ok None]
    unknown_route_404
    [of "\<lparr>req_method = ''HEAD'', pathname = Inr (Some ''/api/count'')\<rparr>"
        "Some ''/api/count''" "''page''" io_ok None]
  by simp

text \<open>
  Claim C8. Every response that the handler produces, the 404 and 500 responses
  included, carries the headers \<open>Access-Control-Allow-Origin: *\<close>,
  \<open>Access-Control-Allow-Methods: GET,POST,OPTIONS\<close> and
  \<open>Access-Control-Allow-Headers: Content-Type\<close>.
\<close>

theorem cors_on_every_response:
  assumes "server HTML io req fs = (Some r, fs')"
  shows "map_of (headers r) ''Access-Control-Allow-Origin'' = Some ''*'' \<and>
         map_of (headers r) ''Access-Control-Allow-Methods'' = Some ''GET,POST,OPTIONS'' \<and>
         map_of (headers r) ''Access-Control-Allow-Headers'' = Some ''Content-Type''"
  using server_headers [OF assms]
  by (auto simp: cors_headers_def json_type_def html_type_def)

theorem cors_on_every_response_witness:
  \<open>server ''page'' io_ok \<lparr>req_method = ''PUT'', pathname = Inr (Some ''/nowhere'')\<rparr> None =
     (Some \<lparr>statusCode = 404, headers = cors_headers @ json_type,
             body = ''{"error":"Not found"}''\<rparr>, None) \<and>
   map_of (cors_headers @ json_type) ''Access-Control-Allow-Origin'' = Some ''*'' \<and>
   map_of (cors_headers @ json_type) ''Access-Control-Allow-Methods'' = Some ''GET,POST,OPTIONS'' \<and>
   map_of (cors_headers @ json_type) ''Access-Control-Allow-Headers'' = Some ''Content-Type''\<close>
proof -
  have h: \<open>server ''page'' io_ok \<lparr>req_method = ''PUT'', pathname = Inr (Some ''/nowhere'')\<rparr> None =
     (Some \<lparr>statusCode = 404, headers = cors_headers @ json_type,
             body = ''{"error":"Not found"}''\<rparr>, None)\<close>
    by (simp add: server_def try_block_def cors_response writeHead_json res_end_def has_body_def
        stringify_error_def Let_def)
  from cors_on_every_response [OF h] h show ?thesis by simp
qed

text \<open>
  Claim C10. Handling \<open>GET /api/count\<close> never modifies the data file: whatever the file
  holds, and whatever the read does, the file after the request is the file before it.
\<close>

theorem get_count_frame:
  "pathname req = Inr (Some ''/api/count'') \<Longrightarrow> req_method req = ''GET'' \<Longrightarrow>
   snd (server HTML io req fs) = fs"
  by (simp add: server_def try_block_def Let_def)

theorem get_count_frame_witness:
  \<open>snd (server ''page'' io_ok GET_count (Some ''{"count":7}'')) = Some ''{"count":7}''\<close>
  using get_count_frame [of GET_count "''page''" io_ok \<open>Some ''{"count":7}''\<close>]
  by (simp add: GET_count_def)


subsection \<open>Reading the counter\<close>

lemma JSON_number_0: "JSON_number (Fin 0) = ''0''"
  by (simp add: JSON_number_def Number_toString_def)

lemma stringify_count_0: \<open>stringify_count (Fin 0) = ''{"count":0}''\<close>
  by (simp add: stringify_count_def JSON_number_0)

lemma stringify_count_2_0:
  \<open>stringify_count_2 (Fin 0) = ''{'' @ [CHR 0x0A] @ ''  "count": 0'' @ [CHR 0x0A] @ ''}''\<close>
  by (simp add: stringify_count_2_def JSON_number_0)

lemma parse_empty_object: "JSON_parse ''{}'' = Inr (JObj [])"
  by code_simp

lemma parse_initial_file:
  "JSON_parse (stringify_count_2 (Fin 0)) = Inr (JObj [(count_key, JNum (Fin 0))])"
  by code_simp

text \<open>\<open>readCount\<close> returns 0 unless the file is there, is read, parses, and the value has
  a numeric \<open>count\<close>, which is then the result.\<close>

lemma readCount_cases:
  "readCount io fs = Fin 0 \<or>
   (\<exists>raw v. fs = Some raw \<and> \<not> read_fails io \<and>
      JSON_parse (if raw = [] then ''{}'' else raw) = Inr v \<and>
      get_count v = Inr (Some (JNum (readCount io fs))))"
  by (auto simp: readCount_def fsp_readFile_def split: option.splits sum.splits json.splits)

lemma readCount_default:
  assumes "fs = None \<or> (\<exists>raw. fs = Some raw \<and>
      ((\<exists>e. JSON_parse raw = Inl e) \<or> (\<exists>v. JSON_parse raw = Inr v \<and> \<not> numeric_count v)))"
  shows "readCount io fs = Fin 0"
  using assms readCount_cases [of io fs]
  by (auto simp: numeric_count_def parse_empty_object get_count_def split: if_splits)

lemma readCount_initial_file: "readCount io (Some (stringify_count_2 (Fin 0))) = Fin 0"
proof -
  have "stringify_count_2 (Fin 0) \<noteq> []"
    by (simp add: stringify_count_2_def)
  then show ?thesis
    by (simp add: readCount_def fsp_readFile_def parse_initial_file get_count_def)
qed

lemma get_count_response:
  "server HTML io GET_count fs =
    (Some \<lparr>statusCode = 200, headers = cors_headers @ json_type,
            body = stringify_count (readCount io fs)\<rparr>, fs)"
  by (simp add: server_def try_block_def cors_response writeHead_json res_end_def has_body_def Let_def
      GET_count_def)

text \<open>
  Claim C3. \<open>readCount\<close> returns 0 whenever the data file is missing, its content is not
  valid JSON, or the parsed value has no numeric \<open>count\<close>; in each of these states
  \<open>GET /api/count\<close> is answered with status 200 and the body \<open>{"count":0}\<close>.
\<close>

theorem read_defaults_to_zero:
  assumes "fs = None \<or> (\<exists>raw. fs = Some raw \<and>
      ((\<exists>e. JSON_parse raw = Inl e) \<or> (\<exists>v. JSON_parse raw = Inr v \<and> \<not> numeric_count v)))"
  shows \<open>readCount io fs = Fin 0 \<and>
    server HTML io GET_count fs =
      (Some \<lparr>statusCode = 200, headers = cors_headers @ json_type,
              body = ''{"count":0}''\<rparr>, fs)\<close>
  using readCount_default [OF assms] by (simp add: get_count_response stringify_count_0)

theorem read_defaults_to_zero_witness:
  \<open>JSON_parse ''not json'' = Inl SyntaxError \<and>
   readCount io_ok (Some ''not json'') = Fin 0 \<and>
   server ''page'' io_ok GET_count (Some ''not json'') =
      (Some \<lparr>statusCode = 200, headers = cors_headers @ json_type,
              body = ''{"count":0}''\<rparr>, Some ''not json'') \<and>
   JSON_parse ''{"count":"7"}'' = Inr (JObj [(count_key, JStr [55])]) \<and>
   \<not> numeric_count (JObj [(count_key, JStr [55])]) \<and>
   readCount io_ok (Some ''{"count":"7"}'') = Fin 0 \<and>
   readCount io_ok None = Fin 0\<close>
proof -
  have a: \<open>JSON_parse ''not json'' = Inl SyntaxError\<close>
    by code_simp
  have b: \<open>JSON_parse ''{"count":"7"}'' = Inr (JObj [(count_key, JStr [55])])\<close>
    by code_simp
  have c: "\<not> numeric_count (JObj [(count_key, JStr [55])])"
    by (simp add: numeric_count_def get_count_def)
  from a read_defaults_to_zero [of "Some ''not json''" io_ok "''page''"]
    b c read_defaults_to_zero [of \<open>Some ''{"count":"7"}''\<close> io_ok "''page''"]
    read_defaults_to_zero [of None io_ok "''page''"]
  show ?thesis by simp
qed

text \<open>
  Claim C5. Starting the server with no data file present creates the data file, and a
  subsequent \<open>GET /api/count\<close> is answered with status 200 and the body \<open>{"count":0}\<close>.
  The server starts (\<open>listen\<close> is called) only when \<open>ensureDataFile\<close> succeeded.
\<close>

theorem fresh_start_creates_file:
  assumes "ensureDataFile io None = (Inr (), fs)"
  shows \<open>fs = Some (''{'' @ [CHR 0x0A] @ ''  "count": 0'' @ [CHR 0x0A] @ ''}'') \<and>
    server HTML io' GET_count fs =
      (Some \<lparr>statusCode = 200, headers = cors_headers @ json_type,
              body = ''{"count":0}''\<rparr>, fs)\<close>
proof -
  from assms have fs: "fs = Some (stringify_count_2 (Fin 0))"
    by (auto simp: ensureDataFile_def fsp_access_def fsp_writeFile_def split: wfault.splits)
  then have "readCount io' fs = Fin 0"
    by (simp add: readCount_initial_file)
  with fs show ?thesis
    by (simp add: get_count_response stringify_count_0 stringify_count_2_0)
qed

theorem fresh_start_creates_file_witness:
  \<open>ensureDataFile io_ok None =
     (Inr (), Some (''{'' @ [CHR 0x0A] @ ''  "count": 0'' @ [CHR 0x0A] @ ''}'')) \<and>
   server ''page'' io_ok GET_count
       (Some (''{'' @ [CHR 0x0A] @ ''  "count": 0'' @ [CHR 0x0A] @ ''}'')) =
     (Some \<lparr>statusCode = 200, headers = cors_headers @ json_type, body = ''{"count":0}''\<rparr>,
      Some (''{'' @ [CHR 0x0A] @ ''  "count": 0'' @ [CHR 0x0A] @ ''}''))\<close>
proof -
  have h: "ensureDataFile io_ok None = (Inr (), Some (stringify_count_2 (Fin 0)))"
    by (simp add: ensureDataFile_def fsp_access_def fsp_writeFile_def io_ok_def)
  from fresh_start_creates_file [OF h, of "''page''" io_ok] h
  show ?thesis by (simp add: stringify_count_2_0)
qed

subsection \<open>Failures\<close>

lemma increment_response:
  "server HTML io POST_increment fs =
    (case write_fault io of
       WriteOk \<Rightarrow>
         (Some \<lparr>statusCode = 200, headers = cors_headers @ json_type,
                 body = stringify_count (plus_1 (readCount io fs))\<rparr>,
          Some (stringify_count_2 (plus_1 (readCount io fs))))
     | FailBefore \<Rightarrow>
         (Some \<lparr>statusCode = 500, headers = cors_headers @ json_type,
                 body = stringify_error ''Server error''\<rparr>, fs)
     | FailAfter k \<Rightarrow>
         (Some \<lparr>statusCode = 500, headers = cors_headers @ json_type,
                 body = stringify_error ''Server error''\<rparr>,
          Some (take k (stringify_count_2 (plus_1 (readCount io fs))))))"
  by (simp add: server_def try_block_def cors_response writeHead_json res_end_def has_body_def Let_def
      POST_increment_def writeCount_def fsp_writeFile_def split: wfault.splits)

lemma no_500_without_write_fault:
  assumes "write_fault io = WriteOk" and "server HTML io req fs = (Some r, fs')"
  shows "statusCode r \<noteq> 500"
  using assms
  by (auto simp: server_def try_block_def cors_response writeHead_json writeHead_html
        res_end_def has_body_def Let_def writeCount_def fsp_writeFile_def
      split: sum.splits if_splits prod.splits)

text \<open>
  Claim C7. When the write of \<open>POST /api/increment\<close> throws, the response has status 500
  and the body \<open>{"error":"Server error"}\<close>. A read that fails is never surfaced as an
  error: \<open>readCount\<close> returns 0, and unless the write fails no request is answered
  with status 500.
\<close>

theorem write_failure_500:
  \<open>(write_fault io \<noteq> WriteOk \<longrightarrow>
      (\<exists>fs'. server HTML io POST_increment fs =
         (Some \<lparr>statusCode = 500, headers = cors_headers @ json_type,
                 body = ''{"error":"Server error"}''\<rparr>, fs'))) \<and>
    (fsp_readFile io fs = Inl e \<longrightarrow>
       readCount io fs = Fin 0 \<and>
       (write_fault io = WriteOk \<longrightarrow> server HTML io req fs = (Some r, fs'') \<longrightarrow>
          statusCode r \<noteq> 500))\<close>
proof -
  have "write_fault io \<noteq> WriteOk \<Longrightarrow>
      \<exists>fs'. server HTML io POST_increment fs =
         (Some \<lparr>statusCode = 500, headers = cors_headers @ json_type,
                 body = stringify_error ''Server error''\<rparr>, fs')"
    by (cases "write_fault io") (simp_all add: increment_response)
  moreover have "fsp_readFile io fs = Inl e \<Longrightarrow> readCount io fs = Fin 0"
    by (simp add: readCount_def)
  ultimately show ?thesis
    using no_500_without_write_fault [of io HTML req fs r fs'']
    by (auto simp: stringify_error_def)
qed

theorem write_failure_500_witness:
  \<open>(\<exists>fs'. server ''page'' (io_ok\<lparr>write_fault := FailAfter 3\<rparr>) POST_increment None =
         (Some \<lparr>statusCode = 500, headers = cors_headers @ json_type,
                 body = ''{"error":"Server error"}''\<rparr>, fs')) \<and>
   fsp_readFile (io_ok\<lparr>read_fails := True\<rparr>) (Some ''{"count":7}'') = Inl IOError \<and>
   readCount (io_ok\<lparr>read_fails := True\<rparr>) (Some ''{"count":7}'') = Fin 0\<close>
  using write_failure_500 [of "io_ok\<lparr>write_fault := FailAfter 3\<rparr>" "''page''" None]
    write_failure_500 [of "io_ok\<lparr>read_fails := True\<rparr>" "''page''" \<open>Some ''{"count":7}''\<close> IOError]
  by (simp add: io_ok_def fsp_readFile_def)

subsection \<open>Incrementing\<close>

lemma readCount_io: "\<not> read_fails io \<Longrightarrow> readCount io fs = readCount io_ok fs"
  by (cases fs) (simp_all add: readCount_def fsp_readFile_def io_ok_def)

lemma readCount_written:
  assumes "\<bar>n\<bar> \<le> 2 ^ 53" and "\<not> read_fails io"
  shows "readCount io (Some (stringify_count_2 (Fin (of_int n)))) = Fin (of_int n)"
proof -
  have "stringify_count_2 (Fin (of_int n)) \<noteq> []"
    by (simp add: stringify_count_2_def)
  with assms(2) show ?thesis
    by (simp add: readCount_def fsp_readFile_def parse_count_2 [OF assms(1)] get_count_def)
qed

lemma plus_1_int:
  assumes "- (2 ^ 53) \<le> n" and "n < 2 ^ 53"
  shows "plus_1 (Fin (of_int n)) = Fin (of_int (n + 1))"
proof -
  from assms have "\<bar>n + 1\<bar> \<le> 2 ^ 53" by simp
  from fl_int [OF this] show ?thesis by (simp add: plus_1_def)
qed

lemma plus_1_top: "plus_1 (Fin (of_int (2 ^ 53))) = Fin (of_int (2 ^ 53))"
  by code_simp

lemma stringify_count_int:
  \<open>\<bar>n\<bar> \<le> 2 ^ 53 \<Longrightarrow> stringify_count (Fin (of_int n)) = ''{"count":'' @ show_int n @ ''}''\<close>
  by (simp add: stringify_count_def JSON_number_int)

lemma stringify_count_2_int:
  \<open>\<bar>n\<bar> \<le> 2 ^ 53 \<Longrightarrow> stringify_count_2 (Fin (of_int n)) =
     ''{'' @ [CHR 0x0A] @ ''  "count": '' @ show_int n @ [CHR 0x0A] @ ''}''\<close>
  by (simp add: stringify_count_2_def JSON_number_int)

lemma increment_int:
  assumes w: "write_fault io = WriteOk" and N: "readCount io fs = Fin (of_int n)"
    and n: "- (2 ^ 53) \<le> n" "n < 2 ^ 53"
  shows "server HTML io POST_increment fs =
      (Some \<lparr>statusCode = 200, headers = cors_headers @ json_type,
              body = stringify_count (Fin (of_int (n + 1)))\<rparr>,
       Some (stringify_count_2 (Fin (of_int (n + 1)))))"
proof -
  have "plus_1 (readCount io fs) = Fin (of_int (n + 1))"
    unfolding N by (rule plus_1_int [OF n])
  then show ?thesis by (simp add: increment_response w)
qed

lemma big_file_parse:
  \<open>JSON_parse ''{"count":9007199254740992}'' =
     Inr (JObj [(count_key, JNum (Fin 9007199254740992))])\<close>
  by code_simp

lemma big_file_read:
  \<open>\<not> read_fails io \<Longrightarrow>
   readCount io (Some ''{"count":9007199254740992}'') = Fin 9007199254740992\<close>
  by (simp add: readCount_def fsp_readFile_def big_file_parse get_count_def)

lemma show_int_top: "show_int 9007199254740992 = ''9007199254740992''"
  by code_simp

lemma small_file_parse:
  \<open>JSON_parse ''{"count":7}'' = Inr (JObj [(count_key, JNum (Fin 7))])\<close>
  by code_simp

lemma small_file_read:
  \<open>\<not> read_fails io \<Longrightarrow> readCount io (Some ''{"count":7}'') = Fin 7\<close>
  by (simp add: readCount_def fsp_readFile_def small_file_parse get_count_def)

lemma show_int_1: "show_int 1 = ''1''"
  by (simp add: show_int_def digits_small digit_char_def)

text \<open>
  Claim C1, as stated: every \<open>POST /api/increment\<close> reads the persisted value \<open>N\<close>,
  persists \<open>N + 1\<close> and answers 200 with \<open>{"count": N + 1}\<close>. It fails in two ways.
  When the write throws, the answer is 500 and nothing is persisted. When the file
  holds \<open>2 ^ 53 = 9007199254740992\<close>, the sum \<open>N + 1\<close> is not a binary64 value and
  rounds back to \<open>N\<close>: the server persists and returns \<open>N\<close> itself.
\<close>

theorem increment_counterexample:
  \<open>server ''page'' (io_ok\<lparr>write_fault := FailBefore\<rparr>) POST_increment (Some ''{"count":7}'') =
     (Some \<lparr>statusCode = 500, headers = cors_headers @ json_type,
             body = ''{"error":"Server error"}''\<rparr>, Some ''{"count":7}'') \<and>
   readCount io_ok (Some ''{"count":9007199254740992}'') = Fin 9007199254740992 \<and>
   server ''page'' io_ok POST_increment (Some ''{"count":9007199254740992}'') =
     (Some \<lparr>statusCode = 200, headers = cors_headers @ json_type,
             body = ''{"count":9007199254740992}''\<rparr>,
      Some (''{'' @ [CHR 0x0A] @ ''  "count": 9007199254740992'' @ [CHR 0x0A] @ ''}''))\<close>
proof -
  have a: \<open>server ''page'' (io_ok\<lparr>write_fault := FailBefore\<rparr>) POST_increment
        (Some ''{"count":7}'') =
     (Some \<lparr>statusCode = 500, headers = cors_headers @ json_type,
             body = ''{"error":"Server error"}''\<rparr>, Some ''{"count":7}'')\<close>
    by (simp add: increment_response io_ok_def stringify_error_def)
  have b: \<open>readCount io_ok (Some ''{"count":9007199254740992}'') = Fin (of_int (2 ^ 53))\<close>
    by (simp add: big_file_read io_ok_def)
  have t: "\<bar>2 ^ 53 :: int\<bar> \<le> 2 ^ 53" by simp
  have c: \<open>server ''page'' io_ok POST_increment (Some ''{"count":9007199254740992}'') =
     (Some \<lparr>statusCode = 200, headers = cors_headers @ json_type,
             body = ''{"count":'' @ show_int (2 ^ 53) @ ''}''\<rparr>,
      Some (''{'' @ [CHR 0x0A] @ ''  "count": '' @ show_int (2 ^ 53) @ [CHR 0x0A] @ ''}''))\<close>
    unfolding increment_response b plus_1_top
      stringify_count_int [OF t] stringify_count_2_int [OF t]
    by (simp add: io_ok_def)
  from a b c show ?thesis by (simp add: show_int_top)
qed

text \<open>
  Claim C1, amended. For every \<open>POST /api/increment\<close> whose write succeeds, with \<open>N\<close> the
  value that \<open>readCount\<close> returns, an integer with \<open>- 2 ^ 53 \<le> N < 2 ^ 53\<close>: the server
  persists \<open>N + 1\<close> (the file holds the pretty-printed \<open>{count: N + 1}\<close> and reads back as
  \<open>N + 1\<close>) and answers with status 200 and the body \<open>{"count": N + 1}\<close>.
\<close>

theorem increment_persists_successor:
  assumes w: "write_fault io = WriteOk" and N: "readCount io fs = Fin (of_int n)"
    and n: "- (2 ^ 53) \<le> n" "n < 2 ^ 53"
  shows \<open>server HTML io POST_increment fs =
      (Some \<lparr>statusCode = 200, headers = cors_headers @ json_type,
              body = ''{"count":'' @ show_int (n + 1) @ ''}''\<rparr>,
       Some (''{'' @ [CHR 0x0A] @ ''  "count": '' @ show_int (n + 1) @ [CHR 0x0A] @ ''}'')) \<and>
    (\<not> read_fails io' \<longrightarrow>
       readCount io' (snd (server HTML io POST_increment fs)) = Fin (of_int (n + 1)))\<close>
proof -
  from n have b: "\<bar>n + 1\<bar> \<le> 2 ^ 53" by simp
  note r = increment_int [OF w N n, of HTML]
  show ?thesis
    unfolding r using readCount_written [OF b, of io']
    by (simp add: stringify_count_int [OF b] stringify_count_2_int [OF b] del: of_int_add)
qed

theorem increment_persists_successor_witness:
  \<open>write_fault io_ok = WriteOk \<and> readCount io_ok None = Fin (of_int 0) \<and>
   server ''page'' io_ok POST_increment None =
      (Some \<lparr>statusCode = 200, headers = cors_headers @ json_type, body = ''{"count":1}''\<rparr>,
       Some (''{'' @ [CHR 0x0A] @ ''  "count": 1'' @ [CHR 0x0A] @ ''}'')) \<and>
   readCount io_ok (snd (server ''page'' io_ok POST_increment None)) = Fin (of_int 1)\<close>
proof -
  have w: "write_fault io_ok = WriteOk" and nr: "\<not> read_fails io_ok"
    by (simp_all add: io_ok_def)
  have r: "readCount io_ok None = Fin (of_int 0)"
    by (simp add: readCount_def fsp_readFile_def)
  have n: "- (2 ^ 53) \<le> (0::int)" "(0::int) < 2 ^ 53"
    by simp_all
  note T = increment_persists_successor [OF w r n, of "''page''" io_ok]
  from T have A: \<open>server ''page'' io_ok POST_increment None =
      (Some \<lparr>statusCode = 200, headers = cors_headers @ json_type,
              body = ''{"count":'' @ show_int (0 + 1) @ ''}''\<rparr>,
       Some (''{'' @ [CHR 0x0A] @ ''  "count": '' @ show_int (0 + 1) @ [CHR 0x0A] @ ''}''))\<close>
    by (rule conjunct1)
  from T nr have B: "readCount io_ok (snd (server ''page'' io_ok POST_increment None)) =
      Fin (of_int (0 + 1))"
    by blast
  from w r A B show ?thesis by (simp add: show_int_1)
qed

subsection \<open>Sequences of increments\<close>

lemma increments_in_sequence:
  assumes "\<forall>x\<in>set xs. no_fault (fst x) \<and> snd x = POST_increment"
  shows "readCount io_ok fs = Fin (of_int c) \<Longrightarrow> - (2 ^ 53) \<le> c \<Longrightarrow>
    c + int (length xs) \<le> 2 ^ 53 \<Longrightarrow>
    readCount io_ok (serve_all HTML xs fs) = Fin (of_int (c + int (length xs)))"
  using assms
proof (induction xs arbitrary: fs c)
  case Nil
  then show ?case by simp
next
  case (Cons x xs)
  obtain io req where x: "x = (io, req)" by (cases x)
  with Cons.prems(4) have io: "\<not> read_fails io" "write_fault io = WriteOk"
    and req: "req = POST_increment"
    by (simp_all add: no_fault_def)
  have r: "readCount io fs = Fin (of_int c)"
    using Cons.prems(1) by (simp add: readCount_io [OF io(1)])
  have c: "c < 2 ^ 53" using Cons.prems(3) by simp
  have b: "\<bar>c + 1\<bar> \<le> 2 ^ 53" using Cons.prems(2) c by simp
  have s: "snd (server HTML io POST_increment fs) = Some (stringify_count_2 (Fin (of_int (c + 1))))"
    by (simp add: increment_int [OF io(2) r Cons.prems(2) c] del: of_int_add)
  have n: "readCount io_ok (snd (server HTML io POST_increment fs)) = Fin (of_int (c + 1))"
    unfolding s by (rule readCount_written [OF b]) (simp add: io_ok_def)
  have "readCount io_ok (serve_all HTML xs (snd (server HTML io POST_increment fs))) =
      Fin (of_int (c + 1 + int (length xs)))"
    using Cons.prems by (intro Cons.IH [OF n]) simp_all
  then show ?case by (simp add: x req add.assoc add.commute)
qed


lemma increment_at_top:
  \<open>snd (server HTML io_ok POST_increment (Some ''{"count":9007199254740992}'')) =
     Some (stringify_count_2 (Fin (of_int (2 ^ 53))))\<close>
proof -
  have \<open>readCount io_ok (Some ''{"count":9007199254740992}'') = Fin (of_int (2 ^ 53))\<close>
    by (simp add: big_file_read io_ok_def)
  moreover have "plus_1 (Fin 9007199254740992) = Fin 9007199254740992"
    using plus_1_top by simp
  ultimately show ?thesis
    by (simp add: increment_response io_ok_def)
qed

lemma increment_unread:
  \<open>snd (server HTML (io_ok\<lparr>read_fails := True\<rparr>) POST_increment (Some ''{"count":7}'')) =
     Some (stringify_count_2 (Fin (of_int 1)))\<close>
proof -
  have r: \<open>readCount (io_ok\<lparr>read_fails := True\<rparr>) (Some ''{"count":7}'') = Fin (of_int 0)\<close>
    by (simp add: readCount_def fsp_readFile_def)
  have "plus_1 (Fin (of_int 0)) = Fin (of_int (0 + 1))"
    by (rule plus_1_int) simp_all
  then show ?thesis
    unfolding increment_response r by (simp add: io_ok_def)
qed

text \<open>
  Claim C2, as stated: from every initial persisted value, \<open>N\<close> sequential increments
  without write failures end at the initial value plus \<open>N\<close>. From \<open>2 ^ 53\<close> one increment
  ends at \<open>2 ^ 53\<close> again; and an increment whose read fails (while its write succeeds)
  restarts the counter at 1, here from 7.
\<close>

theorem sequential_increments_counterexample:
  \<open>readCount io_ok (Some ''{"count":9007199254740992}'') = Fin 9007199254740992 \<and>
   readCount io_ok (serve_all ''page'' [(io_ok, POST_increment)]
       (Some ''{"count":9007199254740992}'')) = Fin 9007199254740992 \<and>
   readCount io_ok (Some ''{"count":7}'') = Fin 7 \<and>
   readCount io_ok (serve_all ''page'' [(io_ok\<lparr>read_fails := True\<rparr>, POST_increment)]
       (Some ''{"count":7}'')) = Fin 1\<close>
proof -
  have nr: "\<not> read_fails io_ok" by (simp add: io_ok_def)
  have a: \<open>readCount io_ok (serve_all ''page'' [(io_ok, POST_increment)]
       (Some ''{"count":9007199254740992}'')) = Fin (of_int (2 ^ 53))\<close>
    unfolding serve_all.simps fst_conv snd_conv increment_at_top
    by (rule readCount_written [OF _ nr]) simp
  have b: \<open>readCount io_ok (serve_all ''page'' [(io_ok\<lparr>read_fails := True\<rparr>, POST_increment)]
       (Some ''{"count":7}'')) = Fin (of_int 1)\<close>
    unfolding serve_all.simps fst_conv snd_conv increment_unread
    by (rule readCount_written [OF _ nr]) simp
  from a b nr show ?thesis by (simp add: big_file_read small_file_read)
qed

text \<open>
  Claim C2, amended. For every list of \<open>N\<close> requests \<open>POST /api/increment\<close> handled one
  after the other with no read and no write failure, and every initial persisted
  counter value \<open>c\<close> that is an integer with \<open>- 2 ^ 53 \<le> c\<close> and \<open>c + N \<le> 2 ^ 53\<close>, the
  final persisted count is \<open>c + N\<close>.
\<close>

theorem sequential_increments:
  assumes "readCount io_ok fs = Fin (of_int c)" and "- (2 ^ 53) \<le> c"
    and "c + int (length xs) \<le> 2 ^ 53"
    and "\<forall>x\<in>set xs. no_fault (fst x) \<and> snd x = POST_increment"
  shows "readCount io_ok (serve_all HTML xs fs) = Fin (of_int (c + int (length xs)))"
  using assms(4,1,2,3) by (rule increments_in_sequence)

theorem sequential_increments_witness:
  "readCount io_ok None = Fin (of_int 0) \<and> no_fault io_ok \<and>
   readCount io_ok (serve_all ''page'' [(io_ok, POST_increment), (io_ok, POST_increment)] None) =
     Fin (of_int 2)"
proof -
  have r: "readCount io_ok None = Fin (of_int 0)"
    by (simp add: readCount_def fsp_readFile_def)
  have nf: "no_fault io_ok"
    by (simp add: no_fault_def io_ok_def)
  then have q: "\<forall>x\<in>set [(io_ok, POST_increment), (io_ok, POST_increment)].
      no_fault (fst x) \<and> snd x = POST_increment"
    by simp
  have "readCount io_ok
      (serve_all ''page'' [(io_ok, POST_increment), (io_ok, POST_increment)] None) =
     Fin (of_int (0 + int (length [(io_ok, POST_increment), (io_ok, POST_increment)])))"
    by (rule sequential_increments [OF r _ _ q]) simp_all
  with r nf show ?thesis by simp
qed

subsection \<open>The counter invariant\<close>


lemma readCount_None: "readCount io None = Fin 0"
  by (simp add: readCount_def fsp_readFile_def)



















end
